theory Spec2Isabelle
  imports Main
begin

section \<open>Formula model\<close>

text \<open>
  The source (main.py) represents a formula as a dataclass with a type tag, a list of
  children and a string value. The embedding keeps exactly these three fields, so a node
  with the wrong number of children is a value of the type, and reading a missing child
  raises IndexError as it does in Python.
\<close>

datatype FormulaType = AND | OR | NOT | IMPL | VAR

datatype Formula = Formula (ftype: FormulaType) (children: "Formula list") (fvalue: string)

datatype error = IndexError | RuntimeError string

text \<open>Python's \<open>xs[i]\<close> for a non-negative constant index.\<close>

definition index :: "'a list \<Rightarrow> nat \<Rightarrow> error + 'a" where
  "index xs i = (if i < length xs then Inr (xs ! i) else Inl IndexError)"

text \<open>Sequencing of computations that may raise: the first exception propagates.\<close>

definition ebind :: "error + 'a \<Rightarrow> ('a \<Rightarrow> error + 'b) \<Rightarrow> error + 'b" where
  "ebind m f = (case m of Inl e \<Rightarrow> Inl e | Inr x \<Rightarrow> f x)"

lemma ebind_Inr [simp]: "ebind (Inr x) f = f x"
  by (simp add: ebind_def)

lemma ebind_Inl [simp]: "ebind (Inl e) f = Inl e"
  by (simp add: ebind_def)

lemma ebind_cong [fundef_cong]:
  "m = m' \<Longrightarrow> (\<And>x. m' = Inr x \<Longrightarrow> f x = f' x) \<Longrightarrow> ebind m f = ebind m' f'"
  by (cases m') (simp_all add: ebind_def)

lemma ebind_eq_Inr: "ebind m f = Inr y \<longleftrightarrow> (\<exists>x. m = Inr x \<and> f x = Inr y)"
  by (cases m) simp_all

lemma index_in_set: "index xs i = Inr x \<Longrightarrow> x \<in> set xs"
  by (auto simp: index_def split: if_splits)

lemma size_child: "c \<in> set (children f) \<Longrightarrow> size c < size f"
  by (cases f) (auto simp: less_Suc_eq_le dest: size_list_estimation'[where f = size, OF _ order_refl])

lemma index_size: "index (children f) i = Inr c \<Longrightarrow> size c < size f"
  by (rule size_child) (rule index_in_set)

subsection \<open>Equality\<close>

text \<open>
  \<open>is_equal\<close> of the source. An argument of \<open>None\<close> is Python's \<open>None\<close>; the result is
  \<open>Inl IndexError\<close> where the source reads a child that is not there. Python's \<open>and\<close>
  does not evaluate its right operand when the left one is false; \<open>swapped_match\<close> is
  computed whatever \<open>direct_match\<close> was.
\<close>

function is_equal :: "Formula option \<Rightarrow> Formula option \<Rightarrow> error + bool" where
  "is_equal None None = Inr True"
| "is_equal None (Some f2) = Inr False"
| "is_equal (Some f1) None = Inr False"
| "is_equal (Some f1) (Some f2) =
     (if ftype f1 \<noteq> ftype f2 then Inr False
      else if ftype f1 = VAR then Inr (fvalue f1 = fvalue f2)
      else if ftype f1 = NOT then
        ebind (index (children f1) 0) (\<lambda>a.
        ebind (index (children f2) 0) (\<lambda>b. is_equal (Some a) (Some b)))
      else if ftype f1 = AND \<or> ftype f1 = OR then
        ebind (ebind (index (children f1) 0) (\<lambda>a0.
               ebind (index (children f2) 0) (\<lambda>b0.
               ebind (is_equal (Some a0) (Some b0)) (\<lambda>r.
               if r then
                 ebind (index (children f1) 1) (\<lambda>a1.
                 ebind (index (children f2) 1) (\<lambda>b1. is_equal (Some a1) (Some b1)))
               else Inr False)))) (\<lambda>direct_match.
        ebind (ebind (index (children f1) 0) (\<lambda>a0.
               ebind (index (children f2) 1) (\<lambda>b1.
               ebind (is_equal (Some a0) (Some b1)) (\<lambda>r.
               if r then
                 ebind (index (children f1) 1) (\<lambda>a1.
                 ebind (index (children f2) 0) (\<lambda>b0. is_equal (Some a1) (Some b0)))
               else Inr False)))) (\<lambda>swapped_match.
        Inr (direct_match \<or> swapped_match)))
      else
        ebind (index (children f1) 0) (\<lambda>a0.
        ebind (index (children f2) 0) (\<lambda>b0.
        ebind (is_equal (Some a0) (Some b0)) (\<lambda>r.
        if r then
          ebind (index (children f1) 1) (\<lambda>a1.
          ebind (index (children f2) 1) (\<lambda>b1. is_equal (Some a1) (Some b1)))
        else Inr False))))"
  by pat_completeness auto
termination
  by (relation "measure (\<lambda>(f1, f2). case f1 of None \<Rightarrow> 0 | Some f \<Rightarrow> size f)")
     (auto dest: index_size)

text \<open>
  The arity invariant of the specification's data model: a variable has no children, a
  negation one, the binary connectives two, and so down the tree. The parser and the
  constructor helpers only build such nodes.
\<close>

fun well_formed :: "Formula \<Rightarrow> bool" where
  "well_formed (Formula t cs v) =
     ((case t of VAR \<Rightarrow> cs = [] | NOT \<Rightarrow> length cs = 1 | _ \<Rightarrow> length cs = 2)
      \<and> (\<forall>c \<in> set cs. well_formed c))"

declare is_equal.simps(4) [simp del]

subsection \<open>Hashing\<close>

text \<open>
  \<open>Formula.__hash__\<close> calls Python's built-in \<open>hash\<close> on tuples of strings and
  integers. The built-in is not part of the repository and depends on the interpreter
  (string hashing is salted per process), so it is a parameter of the model: the hash of
  a string, the hash of an integer, and the hash of a tuple as a function of the hashes
  of its elements, which is how CPython computes it. Nothing more is assumed of them.
\<close>

record builtin_hash =
  hash_str :: "string \<Rightarrow> int"
  hash_int :: "int \<Rightarrow> int"
  hash_tuple :: "int list \<Rightarrow> int"

text \<open>
  Applying a function that may raise to every element of a list, left to right, as a
  generator expression or a list comprehension does.
\<close>

fun traverse :: "('a \<Rightarrow> error + 'b) \<Rightarrow> 'a list \<Rightarrow> error + 'b list" where
  "traverse f [] = Inr []"
| "traverse f (x # xs) = ebind (f x) (\<lambda>y. ebind (traverse f xs) (\<lambda>ys. Inr (y # ys)))"

lemma traverse_cong [fundef_cong]:
  "xs = ys \<Longrightarrow> (\<And>x. x \<in> set ys \<Longrightarrow> f x = g x) \<Longrightarrow> traverse f xs = traverse g ys"
  by (induction ys arbitrary: xs) (auto cong: ebind_cong)

text \<open>
  \<open>FormulaType.name\<close>: the name of the enum member.
\<close>

fun type_name :: "FormulaType \<Rightarrow> string" where
  "type_name AND = ''AND''"
| "type_name OR = ''OR''"
| "type_name NOT = ''NOT''"
| "type_name IMPL = ''IMPL''"
| "type_name VAR = ''VAR''"

text \<open>
  \<open>Formula.__hash__\<close>. A variable is hashed from its name. Otherwise the hashes of
  all children are computed first; a negation uses the first, And and Or use the sorted
  tuple of all of them, and Implies the first two in order. Reading a child hash that is
  not there raises IndexError. (\<open>hash(child)\<close> returns what \<open>child.__hash__()\<close>
  returned, which is already the hash of a tuple.)
\<close>

function Formula_hash :: "builtin_hash \<Rightarrow> Formula \<Rightarrow> error + int" where
  "Formula_hash H f =
     (if ftype f = VAR then Inr (hash_tuple H [hash_str H ''VAR'', hash_str H (fvalue f)])
      else
        ebind (traverse (Formula_hash H) (children f)) (\<lambda>children_hash.
        if ftype f = NOT then
          ebind (index children_hash 0) (\<lambda>h0.
          Inr (hash_tuple H [hash_str H ''NOT'', hash_int H h0]))
        else if ftype f = AND \<or> ftype f = OR then
          Inr (hash_tuple H [hash_str H (type_name (ftype f)),
                             hash_tuple H (map (hash_int H) (sort children_hash))])
        else
          ebind (index children_hash 0) (\<lambda>h0.
          ebind (index children_hash 1) (\<lambda>h1.
          Inr (hash_tuple H [hash_str H (type_name (ftype f)), hash_int H h0, hash_int H h1])))))"
  by pat_completeness auto
termination
  by (relation "measure (\<lambda>(H, f). size f)") (auto dest: size_child)

section \<open>Parser\<close>

text \<open>
  The parser object holds the text and the current position. Its field \<open>len\<close> is set
  to \<open>len(formula_str)\<close> by the constructor and never assigned again, so the model
  reads it off the text. Positions only grow from 0, so they are natural numbers.
  Strings are lists of 8-bit characters: the model covers texts of code points below 256.
\<close>

record Parser =
  formula_str :: string
  pos :: nat

definition len :: "Parser \<Rightarrow> nat" where
  "len p = length (formula_str p)"

definition Parser_init :: "string \<Rightarrow> Parser" where
  "Parser_init s = \<lparr>formula_str = s, pos = 0\<rparr>"

text \<open>
  \<open>str.isspace\<close> on one character, for the code points below 256: tab, line feed,
  vertical tab, form feed, carriage return, the separators 28 to 31, space, next line
  (133) and no-break space (160).
\<close>

definition isspace :: "char \<Rightarrow> bool" where
  "isspace c = (of_char c \<in> {9, 10, 11, 12, 13, 28, 29, 30, 31, 32, 133, 160 :: nat})"

function skip_whitespace :: "Parser \<Rightarrow> Parser" where
  "skip_whitespace p =
     (if pos p < len p \<and> isspace (formula_str p ! pos p)
      then skip_whitespace (p\<lparr>pos := pos p + 1\<rparr>)
      else p)"
  by pat_completeness auto
termination
  by (relation "measure (\<lambda>p. len p - pos p)") (auto simp: len_def)

text \<open>
  The \<open>while\<close> loop of \<open>read_token\<close>. It runs while \<open>pos \<noteq> len\<close> and stops at a space
  character or a parenthesis; other whitespace does not end a token. Reading at a
  position beyond the text would raise IndexError; \<open>read_token\<close> never starts it there.
\<close>

function read_token_loop :: "Parser \<Rightarrow> string \<Rightarrow> error + string \<times> Parser" where
  "read_token_loop p token =
     (if pos p \<noteq> len p then
        ebind (index (formula_str p) (pos p)) (\<lambda>c.
        if c = CHR '' '' \<or> c \<in> set ''()'' then Inr (token, p)
        else read_token_loop (p\<lparr>pos := pos p + 1\<rparr>) (token @ [c]))
      else Inr (token, p))"
  by pat_completeness auto
termination
  by (relation "measure (\<lambda>(p, token). len p - pos p)")
     (auto simp: len_def index_def split: if_splits)

text \<open>
  \<open>read_token\<close> returns the token and the parser with its position advanced; the empty
  token means the end of the text.
\<close>

definition read_token :: "Parser \<Rightarrow> error + string \<times> Parser" where
  "read_token p0 =
     (let p = skip_whitespace p0 in
      if pos p \<ge> len p then Inr ('''', p)
      else if formula_str p ! pos p \<in> set ''()''
        then Inr ([formula_str p ! pos p], p\<lparr>pos := pos p + 1\<rparr>)
      else read_token_loop p '''')"

fun type2str :: "FormulaType \<Rightarrow> string" where
  "type2str AND = ''and''"
| "type2str OR = ''or''"
| "type2str NOT = ''not''"
| "type2str IMPL = ''implies''"
| "type2str VAR = ''''"

definition str2type :: "string \<Rightarrow> FormulaType" where
  "str2type formula_type =
     (if formula_type = ''and'' then AND
      else if formula_type = ''or'' then OR
      else if formula_type = ''not'' then NOT
      else if formula_type = ''implies'' then IMPL
      else VAR)"

text \<open>
  Python's \<open>str(n)\<close> for an integer, used by the error messages.
\<close>

definition digit_char :: "nat \<Rightarrow> char" where
  "digit_char d = char_of (48 + d)"

function show_nat :: "nat \<Rightarrow> string" where
  "show_nat n = (if n < 10 then [digit_char n] else show_nat (n div 10) @ [digit_char (n mod 10)])"
  by pat_completeness auto
termination
  by (relation "measure (\<lambda>n. n)") auto

definition show_int :: "int \<Rightarrow> string" where
  "show_int i = (if i < 0 then ''-'' @ show_nat (nat (- i)) else show_nat (nat i))"

text \<open>
  The exception raised when the token after a form is not a closing parenthesis; the
  offset in the message is the position after that token, minus one.
\<close>

definition expected_close :: "Parser \<Rightarrow> error" where
  "expected_close p = RuntimeError (''wrong syntax: expected ) at '' @ show_int (int (pos p) - 1))"

text \<open>
  \<open>parse_formula\<close>, with the parser state passed through. The last branch, for a type
  that is none of the five, is kept as the source has it.
\<close>

function parse_formula :: "Parser \<Rightarrow> error + Formula \<times> Parser" where
  "parse_formula p =
     ebind (read_token p) (\<lambda>(token, p1).
     if token = ''('' then
       ebind (read_token p1) (\<lambda>(op_token, p2).
       let formula_type = str2type op_token in
       if formula_type = NOT then
         ebind (parse_formula p2) (\<lambda>(child, p3).
         ebind (read_token p3) (\<lambda>(close_paren, p4).
         if close_paren \<noteq> '')'' then Inl (expected_close p4)
         else Inr (Formula formula_type [child] (type2str formula_type), p4)))
       else if formula_type = AND \<or> formula_type = OR \<or> formula_type = IMPL then
         ebind (parse_formula p2) (\<lambda>(left_child, p3).
         ebind (parse_formula p3) (\<lambda>(right_child, p4).
         ebind (read_token p4) (\<lambda>(close_paren, p5).
         if close_paren \<noteq> '')'' then Inl (expected_close p5)
         else Inr (Formula formula_type [left_child, right_child] (type2str formula_type), p5))))
       else if formula_type = VAR then
         ebind (read_token p2) (\<lambda>(close_paren, p3).
         if close_paren \<noteq> '')'' then Inl (expected_close p3)
         else Inr (Formula formula_type [] op_token, p3))
       else
         Inl (RuntimeError (''wrong syntax: unexpected trailing symbol at '' @ show_int (int (pos p2)))))
     else if token = '''' then Inl (RuntimeError ''wrong syntax: unexpected end of formula'')
     else Inr (Formula VAR [] token, p1))"
  by pat_completeness auto

declare Formula_hash.simps [simp del] skip_whitespace.simps [simp del]
  read_token_loop.simps [simp del] show_nat.simps [simp del]

text \<open>
  The tokenizer never moves backwards and leaves the text alone, and a non-empty token
  moves the position forward. This is what makes the parser's recursion terminate: its
  second recursive call starts where the first one ended.
\<close>

lemma skip_whitespace_props:
  "formula_str (skip_whitespace p) = formula_str p \<and> pos p \<le> pos (skip_whitespace p)
   \<and> (pos p \<le> len p \<longrightarrow> pos (skip_whitespace p) \<le> len p)"
proof (induction p rule: skip_whitespace.induct)
  case (1 p)
  show ?case
  proof (cases "pos p < len p \<and> isspace (formula_str p ! pos p)")
    case True
    with 1 show ?thesis by (subst (1 2 3) skip_whitespace.simps) (auto simp: len_def)
  next
    case False
    then show ?thesis by (subst (1 2 3) skip_whitespace.simps) auto
  qed
qed

lemma read_token_loop_props:
  "read_token_loop p t = Inr (t', p') \<Longrightarrow>
     formula_str p' = formula_str p \<and> pos p \<le> pos p'
     \<and> length t' = length t + (pos p' - pos p)
     \<and> (pos p \<le> len p \<longrightarrow> pos p' \<le> len p)"
proof (induction p t rule: read_token_loop.induct)
  case (1 p token)
  show ?case
  proof (cases "pos p \<noteq> len p")
    case False
    with 1(2) show ?thesis by (subst (asm) read_token_loop.simps) auto
  next
    case True
    with 1(2) obtain c where c: "index (formula_str p) (pos p) = Inr c"
      by (subst (asm) read_token_loop.simps) (auto simp: ebind_eq_Inr)
    show ?thesis
    proof (cases "c = CHR '' '' \<or> c \<in> set ''()''")
      case True
      with 1(2) c \<open>pos p \<noteq> len p\<close> show ?thesis
        by (subst (asm) read_token_loop.simps) auto
    next
      case False
      with 1(2) c \<open>pos p \<noteq> len p\<close>
      have "read_token_loop (p\<lparr>pos := pos p + 1\<rparr>) (token @ [c]) = Inr (t', p')"
        by (subst (asm) read_token_loop.simps) auto
      from 1(1)[OF \<open>pos p \<noteq> len p\<close> c False this] c show ?thesis
        by (auto simp: len_def index_def split: if_splits)
    qed
  qed
qed

lemma read_token_props:
  assumes "read_token p = Inr (tok, p')"
  shows "formula_str p' = formula_str p" "pos p \<le> pos p'"
    "tok \<noteq> [] \<Longrightarrow> pos p < pos p' \<and> pos p' \<le> len p"
proof -
  let ?q = "skip_whitespace p"
  note sk = skip_whitespace_props[of p]
  have all: "formula_str p' = formula_str p \<and> pos p \<le> pos p' \<and> (tok \<noteq> [] \<longrightarrow> pos p < pos p' \<and> pos p' \<le> len p)"
  proof (cases "pos ?q \<ge> len ?q")
    case True
    with assms sk show ?thesis by (auto simp: read_token_def Let_def)
  next
    case False
    note nf = False
    show ?thesis
    proof (cases "formula_str ?q ! pos ?q \<in> set ''()''")
      case True
      with assms sk nf show ?thesis by (auto simp: read_token_def Let_def len_def)
    next
      case False
      with assms nf have "read_token_loop ?q '''' = Inr (tok, p')"
        by (auto simp: read_token_def Let_def)
      from read_token_loop_props[OF this] have
        "formula_str p' = formula_str ?q" "pos ?q \<le> pos p'"
        "length tok = pos p' - pos ?q" "pos ?q \<le> len ?q \<longrightarrow> pos p' \<le> len ?q"
        by auto
      moreover have "tok \<noteq> [] \<Longrightarrow> 0 < length tok" by simp
      ultimately show ?thesis using sk nf
        by (auto simp: len_def)
    qed
  qed
  from all show "formula_str p' = formula_str p" "pos p \<le> pos p'"
    "tok \<noteq> [] \<Longrightarrow> pos p < pos p' \<and> pos p' \<le> len p" by auto
qed

lemma parse_formula_dom_props:
  "parse_formula_dom p \<Longrightarrow> parse_formula p = Inr (f, p') \<Longrightarrow>
     formula_str p' = formula_str p \<and> pos p \<le> pos p'"
proof (induction p arbitrary: f p' rule: parse_formula.pinduct)
  case (1 p)
  from 1(1) 1(5) obtain token p1 where rt: "read_token p = Inr (token, p1)"
    by (auto simp: parse_formula.psimps ebind_eq_Inr)
  note t1 = read_token_props(1,2)[OF rt]
  show ?case
  proof (cases "token = ''(''")
    case False
    with 1(1) 1(5) rt t1 show ?thesis
      by (auto simp: parse_formula.psimps split: if_splits)
  next
    case True
    with 1(1) 1(5) rt obtain op_token p2 where ro: "read_token p1 = Inr (op_token, p2)"
      by (auto simp: parse_formula.psimps ebind_eq_Inr)
    note t2 = read_token_props(1,2)[OF ro]
    from 1(1) 1(5) rt True ro have body:
      "(if str2type op_token = NOT then
         ebind (parse_formula p2) (\<lambda>(child, p3).
         ebind (read_token p3) (\<lambda>(close_paren, p4).
         if close_paren \<noteq> '')'' then Inl (expected_close p4)
         else Inr (Formula (str2type op_token) [child] (type2str (str2type op_token)), p4)))
       else if str2type op_token = AND \<or> str2type op_token = OR \<or> str2type op_token = IMPL then
         ebind (parse_formula p2) (\<lambda>(left_child, p3).
         ebind (parse_formula p3) (\<lambda>(right_child, p4).
         ebind (read_token p4) (\<lambda>(close_paren, p5).
         if close_paren \<noteq> '')'' then Inl (expected_close p5)
         else Inr (Formula (str2type op_token) [left_child, right_child] (type2str (str2type op_token)), p5))))
       else if str2type op_token = VAR then
         ebind (read_token p2) (\<lambda>(close_paren, p3).
         if close_paren \<noteq> '')'' then Inl (expected_close p3)
         else Inr (Formula (str2type op_token) [] op_token, p3))
       else
         Inl (RuntimeError (''wrong syntax: unexpected trailing symbol at '' @ show_int (int (pos p2)))))
       = Inr (f, p')"
      by (simp add: parse_formula.psimps Let_def)
    show ?thesis
    proof (cases "str2type op_token = NOT")
      case True
      note isnot = True
      with body obtain child p3 close_paren where
        pc: "parse_formula p2 = Inr (child, p3)" and
        rc: "read_token p3 = Inr (close_paren, p')"
        by (auto simp: ebind_eq_Inr split: if_splits)
      from 1(2)[OF rt refl \<open>token = ''(''\<close> ro refl refl isnot pc]
        read_token_props(1,2)[OF rc] t1 t2
      show ?thesis by auto
    next
      case False
      note notnot = False
      show ?thesis
      proof (cases "str2type op_token = AND \<or> str2type op_token = OR \<or> str2type op_token = IMPL")
        case True
        with body notnot obtain l p3 r p4 close_paren where
          pl: "parse_formula p2 = Inr (l, p3)" and
          pr: "parse_formula p3 = Inr (r, p4)" and
          rc: "read_token p4 = Inr (close_paren, p')"
          by (auto simp: ebind_eq_Inr split: if_splits)
        from 1(3)[OF rt refl \<open>token = ''(''\<close> ro refl refl notnot True pl]
          1(4)[OF rt refl \<open>token = ''(''\<close> ro refl refl notnot True pl refl pr]
          read_token_props(1,2)[OF rc] t1 t2
        show ?thesis by auto
      next
        case False
        with body notnot obtain close_paren where
          rc: "read_token p2 = Inr (close_paren, p')"
          by (auto simp: ebind_eq_Inr split: if_splits)
        from read_token_props(1,2)[OF rc] t1 t2 show ?thesis by auto
      qed
    qed
  qed
qed

termination parse_formula
proof (relation "measure (\<lambda>p. len p - pos p)", goal_cases)
  case 1 show ?case by simp
next
  case (2 p x token p1 x' op_token p2 ft)
  then have a: "read_token p = Inr (''('', p1)" and b: "read_token p1 = Inr (op_token, p2)"
    by auto
  from read_token_props[OF a] read_token_props(1,2)[OF b] show ?case
    by (auto simp: len_def)
next
  case (3 p x token p1 x' op_token p2 ft)
  then have a: "read_token p = Inr (''('', p1)" and b: "read_token p1 = Inr (op_token, p2)"
    by auto
  from read_token_props[OF a] read_token_props(1,2)[OF b] show ?case
    by (auto simp: len_def)
next
  case (4 p x token p1 x' op_token p2 ft y left_child p3)
  then have a: "read_token p = Inr (''('', p1)" and b: "read_token p1 = Inr (op_token, p2)"
    and c: "parse_formula p2 = Inr (left_child, p3)" and d: "parse_formula_dom p2"
    by auto
  from read_token_props[OF a] read_token_props(1,2)[OF b] parse_formula_dom_props[OF d c]
  show ?case
    by (auto simp: len_def)
qed

declare parse_formula.simps [simp del]

section \<open>Normalizer\<close>

text \<open>
  \<open>normalize_formula\<close>. Children are formulas, never \<open>None\<close>, so the test for
  \<open>None\<close> can only succeed at the top: the recursion is \<open>normalize_node\<close>, on
  formulas, and \<open>normalize_formula\<close> adds the case of \<open>None\<close>. A Formula object is
  always truthy, so \<open>not formula\<close> holds for \<open>None\<close> only.
\<close>

function normalize_node :: "Formula \<Rightarrow> error + Formula" where
  "normalize_node formula =
     (if ftype formula = AND then
        ebind (index (children formula) 0) (\<lambda>c0.
        ebind (normalize_node c0) (\<lambda>left_child.
        ebind (index (children formula) 1) (\<lambda>c1.
        ebind (normalize_node c1) (\<lambda>right_child.
        let new_right = Formula NOT [right_child] (type2str NOT);
            impl_formula = Formula IMPL [left_child, new_right] (type2str IMPL)
        in Inr (Formula NOT [impl_formula] (type2str NOT))))))
      else if ftype formula = OR then
        ebind (index (children formula) 0) (\<lambda>c0.
        ebind (normalize_node c0) (\<lambda>left_child.
        ebind (index (children formula) 1) (\<lambda>c1.
        ebind (normalize_node c1) (\<lambda>right_child.
        let new_left = Formula NOT [left_child] (type2str NOT)
        in Inr (Formula IMPL [new_left, right_child] (type2str IMPL))))))
      else Inr formula)"
  by pat_completeness auto
termination
  by (relation "measure size") (auto dest: index_size)

declare normalize_node.simps [simp del]

definition normalize_formula :: "Formula option \<Rightarrow> error + Formula option" where
  "normalize_formula formula =
     (case formula of
        None \<Rightarrow> Inr None
      | Some f \<Rightarrow> ebind (normalize_node f) (\<lambda>r. Inr (Some r)))"

section \<open>Pattern matching and substitution\<close>

text \<open>
  \<open>copy_formula\<close> builds a new tree with the same fields. The model has no object
  identity, so the copy is the same value.
\<close>

fun copy_formula :: "Formula \<Rightarrow> Formula" where
  "copy_formula (Formula t cs v) = Formula t (map copy_formula cs) v"

text \<open>
  A substitution is a Python dict from names to formulas. Its keys are strings, compared
  exactly, and it keeps insertion order: an association list to which a new binding is
  appended, read with \<open>map_of\<close>.
\<close>

type_synonym substitution = "(string \<times> Formula) list"

text \<open>
  \<open>match_pattern\<close>. The result \<open>Inr None\<close> is the source's \<open>None\<close> (no match). The
  children are read after their number has been checked, so these reads cannot raise;
  comparing a binding with the target can, on an ill-formed formula. The source updates
  the dict it was given in place; every caller in the repository starts from a new
  empty dict, which is the argument \<open>[]\<close> here.
\<close>

function match_pattern :: "Formula \<Rightarrow> Formula \<Rightarrow> substitution \<Rightarrow> error + substitution option" where
  "match_pattern pattern target substitution =
     (if ftype pattern = VAR then
        (let var_name = fvalue pattern in
         case map_of substitution var_name of
           Some bound \<Rightarrow>
             ebind (is_equal (Some bound) (Some target)) (\<lambda>same.
             if \<not> same then Inr None else Inr (Some substitution))
         | None \<Rightarrow> Inr (Some (substitution @ [(var_name, copy_formula target)])))
      else if ftype pattern \<noteq> ftype target then Inr None
      else if ftype pattern = NOT then
        (if length (children pattern) \<noteq> 1 \<or> length (children target) \<noteq> 1 then Inr None
         else match_pattern (children pattern ! 0) (children target ! 0) substitution)
      else if ftype pattern = AND \<or> ftype pattern = OR \<or> ftype pattern = IMPL then
        (if length (children pattern) \<noteq> 2 \<or> length (children target) \<noteq> 2 then Inr None
         else
           ebind (match_pattern (children pattern ! 0) (children target ! 0) substitution) (\<lambda>s.
           case s of
             None \<Rightarrow> Inr None
           | Some substitution1 \<Rightarrow>
               match_pattern (children pattern ! 1) (children target ! 1) substitution1))
      else Inr None)"
  by pat_completeness auto
termination
  by (relation "measure (\<lambda>(pattern, target, substitution). size pattern)")
     (auto intro!: size_child)

declare match_pattern.simps [simp del]

text \<open>
  The constructor helpers \<open>Var\<close>, \<open>Impl\<close> and \<open>Not\<close>.
\<close>

definition Var :: "string \<Rightarrow> Formula" where
  "Var name = Formula VAR [] name"

definition Impl :: "Formula \<Rightarrow> Formula \<Rightarrow> Formula" where
  "Impl left right = Formula IMPL [left, right] ''''"

definition Not_formula :: "Formula \<Rightarrow> Formula" where
  "Not_formula f = Formula NOT [f] ''''"

fun apply_substitution :: "Formula \<Rightarrow> substitution \<Rightarrow> Formula" where
  "apply_substitution (Formula t cs v) substitution =
     (if t = VAR then
        (case map_of substitution v of
           Some bound \<Rightarrow> copy_formula bound
         | None \<Rightarrow> Var v)
      else Formula t (map (\<lambda>child. apply_substitution child substitution) cs) v)"

section \<open>Prover\<close>

text \<open>
  A proof is a list holding one tuple: \<open>("hypothesis", i, target)\<close>,
  \<open>("deduction", left, right, proof)\<close>, \<open>("mp", i, proof, target)\<close> or
  \<open>("axiom", number, substitution, target)\<close>.
\<close>

datatype step =
    Hypothesis nat Formula
  | Deduction Formula Formula "step list"
  | ModusPonens nat "step list" Formula
  | Axiom nat substitution Formula

type_synonym proof_steps = "step list"

text \<open>
  The proof cache is a dict keyed by \<open>(target, tuple(hypotheses), depth)\<close>. A dict
  finds a key by its hash first and then by \<open>==\<close>, which for these tuples compares the
  formulas with \<open>is_equal\<close>. The model keeps the entries in insertion order, each with
  the hash of its key, and a lookup returns the first entry with the same hash and an
  equal key. On well-formed formulas that entry is the only candidate: equal keys have
  equal hashes and \<open>is_equal\<close> is transitive (both proved below), so a key equal to a
  stored one is never stored beside it. (CPython also accepts an identical object
  without calling \<open>==\<close>; the model has no identity and compares.)
\<close>

type_synonym cache_key = "Formula \<times> Formula list \<times> int"

type_synonym proof_cache = "(int \<times> cache_key \<times> proof_steps) list"

record Prover =
  proof_cache :: proof_cache
  axioms :: "Formula list"

text \<open>
  \<open>Prover.__init__\<close>: an empty cache and the four axiom schemas, parsed.
\<close>

definition axiom_texts :: "string list" where
  "axiom_texts =
     [''(implies A (implies B A))'',
      ''(implies (implies A (implies B C)) (implies (implies A B) (implies A C)))'',
      ''(implies (implies (not B) (not A)) (implies (implies (not B) A) B))'',
      ''(implies A A)'']"

definition Prover_init :: "error + Prover" where
  "Prover_init =
     ebind (traverse (\<lambda>ax. ebind (parse_formula (Parser_init ax)) (\<lambda>(f, p). Inr f)) axiom_texts)
       (\<lambda>parsed. Inr \<lparr>proof_cache = [], axioms = parsed\<rparr>)"

text \<open>
  The hash of a cache key: the tuple hash of the hashes of its three components.
\<close>

definition key_hash :: "builtin_hash \<Rightarrow> cache_key \<Rightarrow> error + int" where
  "key_hash H key =
     (case key of (target, hypotheses, depth) \<Rightarrow>
        ebind (Formula_hash H target) (\<lambda>h_target.
        ebind (traverse (Formula_hash H) hypotheses) (\<lambda>h_hyps.
        Inr (hash_tuple H [h_target, hash_tuple H h_hyps, hash_int H depth]))))"

text \<open>
  \<open>==\<close> on tuples of formulas: the elements are compared in order up to the first
  difference, and tuples that agree on their common prefix are equal when they have the
  same length.
\<close>

fun tuple_equal :: "Formula list \<Rightarrow> Formula list \<Rightarrow> error + bool" where
  "tuple_equal [] [] = Inr True"
| "tuple_equal [] (y # ys) = Inr False"
| "tuple_equal (x # xs) [] = Inr False"
| "tuple_equal (x # xs) (y # ys) =
     ebind (is_equal (Some x) (Some y)) (\<lambda>same.
     if same then tuple_equal xs ys else Inr False)"

definition key_equal :: "cache_key \<Rightarrow> cache_key \<Rightarrow> error + bool" where
  "key_equal k1 k2 =
     (case (k1, k2) of ((t1, hs1, d1), (t2, hs2, d2)) \<Rightarrow>
        ebind (is_equal (Some t1) (Some t2)) (\<lambda>same.
        if \<not> same then Inr False
        else ebind (tuple_equal hs1 hs2) (\<lambda>same_hyps.
             if \<not> same_hyps then Inr False else Inr (d1 = d2))))"

text \<open>
  \<open>key in dict\<close> and \<open>dict[key]\<close>, and \<open>dict[key] = value\<close>.
\<close>

fun cache_find :: "int \<Rightarrow> cache_key \<Rightarrow> proof_cache \<Rightarrow> error + proof_steps option" where
  "cache_find h key [] = Inr None"
| "cache_find h key ((h', key', v) # rest) =
     (if h' = h then
        ebind (key_equal key' key) (\<lambda>same.
        if same then Inr (Some v) else cache_find h key rest)
      else cache_find h key rest)"

fun cache_store :: "int \<Rightarrow> cache_key \<Rightarrow> proof_steps \<Rightarrow> proof_cache \<Rightarrow> error + proof_cache" where
  "cache_store h key v [] = Inr [(h, key, v)]"
| "cache_store h key v ((h', key', v') # rest) =
     (if h' = h then
        ebind (key_equal key' key) (\<lambda>same.
        if same then Inr ((h', key', v) # rest)
        else ebind (cache_store h key v rest) (\<lambda>rest'. Inr ((h', key', v') # rest')))
      else ebind (cache_store h key v rest) (\<lambda>rest'. Inr ((h', key', v') # rest')))"

definition cache_get :: "builtin_hash \<Rightarrow> Prover \<Rightarrow> cache_key \<Rightarrow> error + proof_steps option" where
  "cache_get H self key = ebind (key_hash H key) (\<lambda>h. cache_find h key (proof_cache self))"

definition cache_set :: "builtin_hash \<Rightarrow> Prover \<Rightarrow> cache_key \<Rightarrow> proof_steps \<Rightarrow> error + Prover" where
  "cache_set H self key v =
     ebind (key_hash H key) (\<lambda>h.
     ebind (cache_store h key v (proof_cache self)) (\<lambda>c.
     Inr (self\<lparr>proof_cache := c\<rparr>)))"

text \<open>
  The first loop of \<open>prove\<close>: the index of the first hypothesis equal to the target.
\<close>

fun find_hypothesis :: "Formula list \<Rightarrow> nat \<Rightarrow> Formula \<Rightarrow> error + nat option" where
  "find_hypothesis [] i target = Inr None"
| "find_hypothesis (hyp # rest) i target =
     ebind (is_equal (Some hyp) (Some target)) (\<lambda>same.
     if same then Inr (Some i) else find_hypothesis rest (i + 1) target)"

text \<open>
  The second loop of \<open>prove\<close>, over the hypotheses \<open>Implies(left, target)\<close>. The
  recursive call of \<open>prove\<close> on \<open>left\<close> is the parameter \<open>prove_left\<close>; the prover
  state goes through the calls.
\<close>

fun mp_loop ::
  "(Formula \<Rightarrow> 's \<Rightarrow> error + proof_steps option \<times> 's) \<Rightarrow> Formula list \<Rightarrow> nat \<Rightarrow> Formula \<Rightarrow> 's
     \<Rightarrow> error + (nat \<times> proof_steps) option \<times> 's" where
  "mp_loop prove_left [] i target self = Inr (None, self)"
| "mp_loop prove_left (hyp # rest) i target self =
     (if ftype hyp = IMPL then
        ebind (index (children hyp) 1) (\<lambda>consequent.
        ebind (is_equal (Some consequent) (Some target)) (\<lambda>same.
        if same then
          ebind (index (children hyp) 0) (\<lambda>left.
          ebind (prove_left left self) (\<lambda>(proof_left, self').
          case proof_left of
            Some pl \<Rightarrow> Inr (Some (i, pl), self')
          | None \<Rightarrow> mp_loop prove_left rest (i + 1) target self'))
        else mp_loop prove_left rest (i + 1) target self))
      else mp_loop prove_left rest (i + 1) target self)"

lemma mp_loop_cong [fundef_cong]:
  "(\<And>left s. f left s = g left s) \<Longrightarrow> hs = hs' \<Longrightarrow> i = i' \<Longrightarrow> t = t' \<Longrightarrow> s = s'
     \<Longrightarrow> mp_loop f hs i t s = mp_loop g hs' i' t' s'"
proof -
  assume "\<And>left s. f left s = g left s"
  then have "f = g" by (intro ext)
  moreover assume "hs = hs'" "i = i'" "t = t'" "s = s'"
  ultimately show ?thesis by simp
qed

text \<open>
  The third loop of \<open>prove\<close>: the first axiom schema that matches, numbered from 1.
\<close>

fun match_axioms :: "Formula list \<Rightarrow> nat \<Rightarrow> Formula \<Rightarrow> error + (nat \<times> substitution) option" where
  "match_axioms [] axiom_idx target = Inr None"
| "match_axioms (ax # rest) axiom_idx target =
     ebind (match_pattern ax target []) (\<lambda>substitution.
     case substitution of
       Some s \<Rightarrow> Inr (Some (axiom_idx + 1, s))
     | None \<Rightarrow> match_axioms rest (axiom_idx + 1) target)"

text \<open>
  \<open>Prover.prove\<close>. The prover object (its cache) is passed in and returned. The
  result \<open>None\<close> is "no proof found"; it is returned without caching. The nesting
  of calls is not limited here. The interpreter limits it: a chain of nested calls longer
  than its recursion limit ends in a RecursionError, which is not represented, so
  what is proved about a returned value is about calls that stay within that limit.
\<close>

function prove ::
  "builtin_hash \<Rightarrow> Prover \<Rightarrow> Formula \<Rightarrow> Formula list \<Rightarrow> int \<Rightarrow> int
     \<Rightarrow> error + proof_steps option \<times> Prover" where
  "prove H self target hypotheses depth max_depth =
     (let cache_key = (target, hypotheses, depth) in
      ebind (cache_get H self cache_key) (\<lambda>cached.
      case cached of
        Some prf \<Rightarrow> Inr (Some prf, self)
      | None \<Rightarrow>
          if depth > max_depth then Inr (None, self)
          else
            ebind (find_hypothesis hypotheses 0 target) (\<lambda>found.
            case found of
              Some i \<Rightarrow>
                (let prf = [Hypothesis i target] in
                 ebind (cache_set H self cache_key prf) (\<lambda>self'. Inr (Some prf, self')))
            | None \<Rightarrow>
                ebind
                  (if ftype target = IMPL then
                     ebind (index (children target) 0) (\<lambda>left.
                     ebind (index (children target) 1) (\<lambda>right.
                     ebind (prove H self right (hypotheses @ [left]) (depth + 1) max_depth)
                       (\<lambda>(proof_right, self1).
                     case proof_right of
                       Some pr \<Rightarrow> Inr (Some [Deduction left right pr], self1)
                     | None \<Rightarrow> Inr (None, self1))))
                   else Inr (None, self))
                  (\<lambda>(deduced, self1).
                case deduced of
                  Some prf \<Rightarrow>
                    ebind (cache_set H self1 cache_key prf) (\<lambda>self'. Inr (Some prf, self'))
                | None \<Rightarrow>
                    ebind (mp_loop (\<lambda>left s. prove H s left hypotheses (depth + 1) max_depth)
                             hypotheses 0 target self1) (\<lambda>(mp, self2).
                    case mp of
                      Some (i, proof_left) \<Rightarrow>
                        (let prf = [ModusPonens i proof_left target] in
                         ebind (cache_set H self2 cache_key prf) (\<lambda>self'. Inr (Some prf, self')))
                    | None \<Rightarrow>
                        ebind (match_axioms (axioms self2) 0 target) (\<lambda>matched.
                        case matched of
                          Some (axiom_number, substitution) \<Rightarrow>
                            (let prf = [Axiom axiom_number substitution target] in
                             ebind (cache_set H self2 cache_key prf) (\<lambda>self'.
                             Inr (Some prf, self')))
                        | None \<Rightarrow> Inr (None, self2)))))))"
  by pat_completeness auto
termination
  by (relation "measure (\<lambda>(H, self, target, hypotheses, depth, max_depth). nat (max_depth + 1 - depth))")
     auto

declare prove.simps [simp del]

section \<open>Printer and entry points\<close>

text \<open>
  \<open>formula2str\<close>, the canonical printer.
\<close>

function formula2str :: "Formula \<Rightarrow> error + string" where
  "formula2str formula =
     (if ftype formula = VAR then Inr (fvalue formula)
      else if ftype formula = NOT then
        ebind (index (children formula) 0) (\<lambda>c0.
        ebind (formula2str c0) (\<lambda>s0.
        Inr (''('' @ type2str (ftype formula) @ '' '' @ s0 @ '')'')))
      else
        ebind (index (children formula) 0) (\<lambda>c0.
        ebind (formula2str c0) (\<lambda>s0.
        ebind (index (children formula) 1) (\<lambda>c1.
        ebind (formula2str c1) (\<lambda>s1.
        Inr (''('' @ type2str (ftype formula) @ '' '' @ s0 @ '' '' @ s1 @ '')''))))))"
  by pat_completeness auto
termination
  by (relation "measure size") (auto dest: index_size)

declare formula2str.simps [simp del]

text \<open>
  The value a call returns to its caller, without the state; \<open>parse\<close> is
  \<open>Parser(text).parse_formula()\<close>, and \<open>prove_parsed\<close> is
  \<open>Prover().prove(Parser(exp).parse_formula())\<close> with the default arguments.
\<close>

definition returned :: "error + 'a \<times> 's \<Rightarrow> error + 'a" where
  "returned r = ebind r (\<lambda>(x, s). Inr x)"

definition parse :: "string \<Rightarrow> error + Formula" where
  "parse text = returned (parse_formula (Parser_init text))"

definition prove_parsed :: "builtin_hash \<Rightarrow> string \<Rightarrow> error + proof_steps option" where
  "prove_parsed H exp =
     ebind Prover_init (\<lambda>self.
     ebind (parse exp) (\<lambda>target.
     returned (prove H self target [] 0 1000)))"

section \<open>Notions used in the statements and proofs\<close>

text \<open>
  \<open>both p q\<close> is Python's \<open>p and q\<close> for two comparisons that may raise, and
  \<open>eqv a b\<close> says that \<open>is_equal\<close> returns \<open>True\<close> on two formulas.
\<close>

definition both :: "error + bool \<Rightarrow> error + bool \<Rightarrow> error + bool" where
  "both p q = ebind p (\<lambda>r. if r then q else Inr False)"

abbreviation eqv :: "Formula \<Rightarrow> Formula \<Rightarrow> bool" where
  "eqv a b \<equiv> is_equal (Some a) (Some b) = Inr True"

text \<open>
  A substitution extends another when it keeps all its bindings; it is well-formed when
  it binds well-formed formulas only.
\<close>

definition extends :: "substitution \<Rightarrow> substitution \<Rightarrow> bool" where
  "extends s s' = (\<forall>v f. map_of s v = Some f \<longrightarrow> map_of s' v = Some f)"

definition wf_subst :: "substitution \<Rightarrow> bool" where
  "wf_subst s = (\<forall>v f. map_of s v = Some f \<longrightarrow> well_formed f)"

text \<open>
  The invariant of the prover state: the targets and hypotheses of all cached keys are
  well-formed. It holds of a new prover, and \<open>prove\<close> keeps it when it is called on
  well-formed formulas.
\<close>

definition wf_key :: "cache_key \<Rightarrow> bool" where
  "wf_key key = (case key of (target, hypotheses, depth) \<Rightarrow>
     well_formed target \<and> (\<forall>h \<in> set hypotheses. well_formed h))"

definition wf_prover :: "Prover \<Rightarrow> bool" where
  "wf_prover self = (\<forall>(h, key, v) \<in> set (proof_cache self). wf_key key)"

text \<open>
  Concrete inputs for the examples: one choice of the built-in hash functions, and the
  prover that \<open>Prover_init\<close> builds.
\<close>

definition example_hash :: builtin_hash where
  "example_hash = \<lparr>hash_str = (\<lambda>s. int (length s)), hash_int = (\<lambda>i. i), hash_tuple = sum_list\<rparr>"

definition fresh_prover :: Prover where
  "fresh_prover = \<lparr>proof_cache = [], axioms =
     [Formula IMPL [Formula VAR [] ''A'',
        Formula IMPL [Formula VAR [] ''B'', Formula VAR [] ''A''] ''implies''] ''implies'',
      Formula IMPL
        [Formula IMPL [Formula VAR [] ''A'',
           Formula IMPL [Formula VAR [] ''B'', Formula VAR [] ''C''] ''implies''] ''implies'',
         Formula IMPL
           [Formula IMPL [Formula VAR [] ''A'', Formula VAR [] ''B''] ''implies'',
            Formula IMPL [Formula VAR [] ''A'', Formula VAR [] ''C''] ''implies''] ''implies'']
        ''implies'',
      Formula IMPL
        [Formula IMPL [Formula NOT [Formula VAR [] ''B''] ''not'',
           Formula NOT [Formula VAR [] ''A''] ''not''] ''implies'',
         Formula IMPL
           [Formula IMPL [Formula NOT [Formula VAR [] ''B''] ''not'', Formula VAR [] ''A'']
              ''implies'',
            Formula VAR [] ''B''] ''implies'']
        ''implies'',
      Formula IMPL [Formula VAR [] ''A'', Formula VAR [] ''A''] ''implies'']\<rparr>"

text \<open>
  The modus ponens loop of \<open>prove\<close>, hypothesis by hypothesis. \<open>mp_candidate hyp target\<close>:
  the hypothesis is an implication whose consequent is equal to the target, so the loop
  tries to prove its antecedent; \<open>mp_skipped hyp target\<close>: it is no implication, or its
  consequent differs from the target, so the loop passes over it. \<open>mp_passed\<close>: the loop
  goes from prover state \<open>s\<close> to \<open>s'\<close> on a hypothesis without using it: it is skipped
  and the state stays, or it is a candidate and the attempt on its antecedent finds no
  proof. \<open>mp_tried_in_vain prove_left hyps target ss j\<close>: this happens on each of the
  first \<open>j\<close> hypotheses, in list order, \<open>ss ! k\<close> being the state before hypothesis
  \<open>k\<close> and \<open>ss ! j\<close> the state after the last of them.
\<close>

definition mp_candidate :: "Formula \<Rightarrow> Formula \<Rightarrow> bool" where
  "mp_candidate hyp target =
     (ftype hyp = IMPL \<and>
      (case index (children hyp) 1 of
         Inr consequent \<Rightarrow> is_equal (Some consequent) (Some target) = Inr True
       | Inl e \<Rightarrow> False))"

definition mp_skipped :: "Formula \<Rightarrow> Formula \<Rightarrow> bool" where
  "mp_skipped hyp target =
     (ftype hyp \<noteq> IMPL \<or>
      (case index (children hyp) 1 of
         Inr consequent \<Rightarrow> is_equal (Some consequent) (Some target) = Inr False
       | Inl e \<Rightarrow> False))"

definition mp_passed ::
  "(Formula \<Rightarrow> 's \<Rightarrow> error + proof_steps option \<times> 's) \<Rightarrow> Formula \<Rightarrow> Formula \<Rightarrow> 's \<Rightarrow> 's \<Rightarrow> bool" where
  "mp_passed prove_left hyp target s s' =
     (if mp_candidate hyp target then
        (case index (children hyp) 0 of
           Inr left \<Rightarrow> prove_left left s = Inr (None, s')
         | Inl e \<Rightarrow> False)
      else mp_skipped hyp target \<and> s' = s)"

definition mp_tried_in_vain ::
  "(Formula \<Rightarrow> 's \<Rightarrow> error + proof_steps option \<times> 's) \<Rightarrow> Formula list \<Rightarrow> Formula \<Rightarrow> 's list \<Rightarrow> nat
     \<Rightarrow> bool" where
  "mp_tried_in_vain prove_left hyps target ss j =
     (j \<le> length hyps \<and> length ss = j + 1 \<and>
      (\<forall>k < j. mp_passed prove_left (hyps ! k) target (ss ! k) (ss ! (k + 1))))"

text \<open>
  The part of the text the parser has not read yet, and the characters that end a token.
\<close>

definition rest_of :: "Parser \<Rightarrow> string" where
  "rest_of p = drop (pos p) (formula_str p)"

definition delimiter :: "char \<Rightarrow> bool" where
  "delimiter c = (c = CHR '' '' \<or> c = CHR ''('' \<or> c = CHR '')'')"

text \<open>
  A variable name the tokenizer reads back as one token: not empty, not starting with
  a whitespace character, and free of the space character and of parentheses.
\<close>

definition is_identifier :: "string \<Rightarrow> bool" where
  "is_identifier name = (name \<noteq> [] \<and> \<not> isspace (hd name) \<and> (\<forall>c \<in> set name. \<not> delimiter c))"

fun identifier_names :: "Formula \<Rightarrow> bool" where
  "identifier_names (Formula t cs v) =
     ((if t = VAR then is_identifier v else True) \<and> (\<forall>c \<in> set cs. identifier_names c))"

text \<open>What the parser builds from the printed text: every operator node carries its keyword.\<close>

fun reparsed :: "Formula \<Rightarrow> Formula" where
  "reparsed (Formula t cs v) = Formula t (map reparsed cs) (if t = VAR then v else type2str t)"

text \<open>
  \<open>parses_as s g\<close>: wherever the text \<open>s\<close> stands in the input, after any whitespace
  and before the end of the input or a delimiter, the parser reads it as \<open>g\<close> and stops
  right behind it. \<open>parse_outcome p res\<close>: the three results a call of the parser at
  state \<open>p\<close> can have.
\<close>

definition parses_as :: "string \<Rightarrow> Formula \<Rightarrow> bool" where
  "parses_as s g =
     (\<forall>p ws r. rest_of p = ws @ s @ r \<longrightarrow> (\<forall>c \<in> set ws. isspace c) \<longrightarrow>
        (r = [] \<or> delimiter (hd r)) \<longrightarrow>
        parse_formula p = Inr (g, p\<lparr>pos := pos p + length ws + length s\<rparr>))"

definition parse_outcome :: "Parser \<Rightarrow> error + Formula \<times> Parser \<Rightarrow> bool" where
  "parse_outcome p res =
     ((\<exists>f p'. res = Inr (f, p') \<and> well_formed f \<and> pos p \<le> pos p' \<and> pos p' \<le> len p
          \<and> formula_str p' = formula_str p)
      \<or> (\<exists>q. res = Inl (expected_close q) \<and> pos p < pos q \<and> pos q \<le> len p)
      \<or> res = Inl (RuntimeError ''wrong syntax: unexpected end of formula''))"



section \<open>Properties of the equality\<close>

lemma index_simps [simp]:
  "index (x # xs) 0 = Inr x"
  "index (x # y # xs) (Suc 0) = Inr y"
  "index [] i = Inl IndexError"
  "index [x] (Suc 0) = Inl IndexError"
  by (simp_all add: index_def)

lemma is_equal_type_diff:
  "t \<noteq> u \<Longrightarrow> is_equal (Some (Formula t cs v)) (Some (Formula u ds w)) = Inr False"
  by (subst is_equal.simps(4)) simp

lemma is_equal_VAR [simp]:
  "is_equal (Some (Formula VAR cs v)) (Some (Formula VAR ds w)) = Inr (v = w)"
  by (subst is_equal.simps(4)) simp

lemma is_equal_NOT [simp]:
  "is_equal (Some (Formula NOT [a] v)) (Some (Formula NOT [b] w)) = is_equal (Some a) (Some b)"
  by (subst is_equal.simps(4)) simp

lemma is_equal_IMPL:
  "is_equal (Some (Formula IMPL [a0, a1] v)) (Some (Formula IMPL [b0, b1] w)) =
     both (is_equal (Some a0) (Some b0)) (is_equal (Some a1) (Some b1))"
  by (subst is_equal.simps(4)) (simp add: both_def cong: if_cong)

lemma is_equal_AND:
  "is_equal (Some (Formula AND [a0, a1] v)) (Some (Formula AND [b0, b1] w)) =
     ebind (both (is_equal (Some a0) (Some b0)) (is_equal (Some a1) (Some b1))) (\<lambda>d.
     ebind (both (is_equal (Some a0) (Some b1)) (is_equal (Some a1) (Some b0))) (\<lambda>s.
     Inr (d \<or> s)))"
  by (subst is_equal.simps(4)) (simp add: both_def cong: if_cong)

lemma is_equal_OR:
  "is_equal (Some (Formula OR [a0, a1] v)) (Some (Formula OR [b0, b1] w)) =
     ebind (both (is_equal (Some a0) (Some b0)) (is_equal (Some a1) (Some b1))) (\<lambda>d.
     ebind (both (is_equal (Some a0) (Some b1)) (is_equal (Some a1) (Some b0))) (\<lambda>s.
     Inr (d \<or> s)))"
  by (subst is_equal.simps(4)) (simp add: both_def cong: if_cong)

lemma both_Inr [simp]: "both (Inr p) (Inr q) = Inr (p \<and> q)"
  by (simp add: both_def)

lemma well_formed_cases:
  assumes "well_formed f"
  obtains (Var) v where "f = Formula VAR [] v"
  | (Not) a v where "f = Formula NOT [a] v" "well_formed a"
  | (And) a b v where "f = Formula AND [a, b] v" "well_formed a" "well_formed b"
  | (Or) a b v where "f = Formula OR [a, b] v" "well_formed a" "well_formed b"
  | (Impl) a b v where "f = Formula IMPL [a, b] v" "well_formed a" "well_formed b"
proof (cases f)
  case (Formula t cs v)
  show ?thesis
  proof (cases t)
    case VAR with Formula assms Var show ?thesis by simp
  next
    case NOT
    with Formula assms obtain a where "cs = [a]" by (auto simp: length_Suc_conv)
    with NOT Formula assms Not show ?thesis by simp
  next
    case AND
    with Formula assms obtain a b where "cs = [a, b]"
      by (auto simp: length_Suc_conv numeral_2_eq_2)
    with AND Formula assms And show ?thesis by simp
  next
    case OR
    with Formula assms obtain a b where "cs = [a, b]"
      by (auto simp: length_Suc_conv numeral_2_eq_2)
    with OR Formula assms Or show ?thesis by simp
  next
    case IMPL
    with Formula assms obtain a b where "cs = [a, b]"
      by (auto simp: length_Suc_conv numeral_2_eq_2)
    with IMPL Formula assms Impl show ?thesis by simp
  qed
qed

lemma is_equal_total:
  "well_formed a \<Longrightarrow> well_formed b \<Longrightarrow> \<exists>r. is_equal (Some a) (Some b) = Inr r"
proof (induction a arbitrary: b)
  case (Formula t cs v)
  note wa = \<open>well_formed (Formula t cs v)\<close>
  show ?case
  proof (cases "ftype b = t")
    case False
    then show ?thesis by (cases b) (auto simp: is_equal_type_diff)
  next
    case True
    from \<open>well_formed b\<close> show ?thesis
    proof (cases b rule: well_formed_cases)
      case (Var w)
      with True wa show ?thesis by simp
    next
      case (Not b0 w)
      with True wa obtain a0 where cs: "cs = [a0]" by (auto simp: length_Suc_conv)
      with Formula.IH[of a0 b0] wa Not True show ?thesis by simp
    next
      case (And b0 b1 w)
      with True wa obtain a0 a1 where cs: "cs = [a0, a1]"
        by (auto simp: length_Suc_conv numeral_2_eq_2)
      with Formula.IH[of a0 b0] Formula.IH[of a1 b1] Formula.IH[of a0 b1] Formula.IH[of a1 b0]
           wa And True show ?thesis by (auto simp: is_equal_AND)
    next
      case (Or b0 b1 w)
      with True wa obtain a0 a1 where cs: "cs = [a0, a1]"
        by (auto simp: length_Suc_conv numeral_2_eq_2)
      with Formula.IH[of a0 b0] Formula.IH[of a1 b1] Formula.IH[of a0 b1] Formula.IH[of a1 b0]
           wa Or True show ?thesis by (auto simp: is_equal_OR)
    next
      case (Impl b0 b1 w)
      with True wa obtain a0 a1 where cs: "cs = [a0, a1]"
        by (auto simp: length_Suc_conv numeral_2_eq_2)
      with Formula.IH[of a0 b0] Formula.IH[of a1 b1]
           wa Impl True show ?thesis by (auto simp: is_equal_IMPL)
    qed
  qed
qed

lemma eqv_ftype: "eqv a b \<Longrightarrow> ftype a = ftype b"
proof (rule ccontr)
  assume "ftype a \<noteq> ftype b"
  then have "is_equal (Some a) (Some b) = Inr False"
    by (subst is_equal.simps(4)) simp
  moreover assume "eqv a b"
  ultimately show False by simp
qed

lemma eqv_IMPL_iff:
  assumes "well_formed a0" "well_formed a1" "well_formed b0" "well_formed b1"
  shows "eqv (Formula IMPL [a0, a1] v) (Formula IMPL [b0, b1] w) \<longleftrightarrow> eqv a0 b0 \<and> eqv a1 b1"
  using is_equal_total[OF assms(1) assms(3)] is_equal_total[OF assms(2) assms(4)]
  by (auto simp: is_equal_IMPL)

lemma eqv_AND_iff:
  assumes "well_formed a0" "well_formed a1" "well_formed b0" "well_formed b1"
  shows "eqv (Formula AND [a0, a1] v) (Formula AND [b0, b1] w) \<longleftrightarrow>
           (eqv a0 b0 \<and> eqv a1 b1) \<or> (eqv a0 b1 \<and> eqv a1 b0)"
  using is_equal_total[OF assms(1) assms(3)] is_equal_total[OF assms(2) assms(4)]
        is_equal_total[OF assms(1) assms(4)] is_equal_total[OF assms(2) assms(3)]
  by (auto simp: is_equal_AND)

lemma eqv_OR_iff:
  assumes "well_formed a0" "well_formed a1" "well_formed b0" "well_formed b1"
  shows "eqv (Formula OR [a0, a1] v) (Formula OR [b0, b1] w) \<longleftrightarrow>
           (eqv a0 b0 \<and> eqv a1 b1) \<or> (eqv a0 b1 \<and> eqv a1 b0)"
  using is_equal_total[OF assms(1) assms(3)] is_equal_total[OF assms(2) assms(4)]
        is_equal_total[OF assms(1) assms(4)] is_equal_total[OF assms(2) assms(3)]
  by (auto simp: is_equal_OR)

lemma well_formed_induct [consumes 1, case_names Var Not And Or Impl]:
  assumes "well_formed f"
    and "\<And>v. P (Formula VAR [] v)"
    and "\<And>a v. well_formed a \<Longrightarrow> P a \<Longrightarrow> P (Formula NOT [a] v)"
    and "\<And>a b v. well_formed a \<Longrightarrow> well_formed b \<Longrightarrow> P a \<Longrightarrow> P b \<Longrightarrow> P (Formula AND [a, b] v)"
    and "\<And>a b v. well_formed a \<Longrightarrow> well_formed b \<Longrightarrow> P a \<Longrightarrow> P b \<Longrightarrow> P (Formula OR [a, b] v)"
    and "\<And>a b v. well_formed a \<Longrightarrow> well_formed b \<Longrightarrow> P a \<Longrightarrow> P b \<Longrightarrow> P (Formula IMPL [a, b] v)"
  shows "P f"
  using assms(1)
proof (induction f)
  case (Formula t cs v)
  from Formula.prems show ?case
  proof (cases rule: well_formed_cases)
    case (Var v) with assms(2) show ?thesis by simp
  next
    case (Not a v') with assms(3) Formula.IH[of a] show ?thesis by simp
  next
    case (And a b v') with assms(4) Formula.IH[of a] Formula.IH[of b] show ?thesis by simp
  next
    case (Or a b v') with assms(5) Formula.IH[of a] Formula.IH[of b] show ?thesis by simp
  next
    case (Impl a b v') with assms(6) Formula.IH[of a] Formula.IH[of b] show ?thesis by simp
  qed
qed

lemma eqv_refl: "well_formed a \<Longrightarrow> eqv a a"
  by (induction a rule: well_formed_induct)
     (simp_all add: eqv_IMPL_iff eqv_AND_iff eqv_OR_iff)

lemma eqv_shape:
  assumes "well_formed b" "eqv a b"
  shows "(ftype a = VAR \<longrightarrow> (\<exists>w. b = Formula VAR [] w))
       \<and> (ftype a = NOT \<longrightarrow> (\<exists>b0 w. b = Formula NOT [b0] w \<and> well_formed b0))
       \<and> (ftype a \<in> {AND, OR, IMPL} \<longrightarrow> (\<exists>b0 b1 w. b = Formula (ftype a) [b0, b1] w \<and> well_formed b0 \<and> well_formed b1))"
  using assms(1) eqv_ftype[OF assms(2)]
  by (cases b rule: well_formed_cases) auto

lemma eqv_sym: "well_formed a \<Longrightarrow> well_formed b \<Longrightarrow> eqv a b \<Longrightarrow> eqv b a"
proof (induction a arbitrary: b rule: well_formed_induct)
  case (Var v)
  with eqv_shape[OF Var(1) Var(2)] show ?case by auto
next
  case (Not a v)
  with eqv_shape[OF Not(3) Not(4)] show ?case by auto
next
  case (And a0 a1 v)
  from eqv_shape[OF And(5) And(6)] obtain b0 b1 w
    where b: "b = Formula AND [b0, b1] w" "well_formed b0" "well_formed b1" by auto
  with And show ?case by (auto simp: eqv_AND_iff)
next
  case (Or a0 a1 v)
  from eqv_shape[OF Or(5) Or(6)] obtain b0 b1 w
    where b: "b = Formula OR [b0, b1] w" "well_formed b0" "well_formed b1" by auto
  with Or show ?case by (auto simp: eqv_OR_iff)
next
  case (Impl a0 a1 v)
  from eqv_shape[OF Impl(5) Impl(6)] obtain b0 b1 w
    where b: "b = Formula IMPL [b0, b1] w" "well_formed b0" "well_formed b1" by auto
  with Impl show ?case by (auto simp: eqv_IMPL_iff)
qed

lemma eqv_trans:
  "well_formed a \<Longrightarrow> well_formed b \<Longrightarrow> well_formed c \<Longrightarrow> eqv a b \<Longrightarrow> eqv b c \<Longrightarrow> eqv a c"
proof (induction a arbitrary: b c rule: well_formed_induct)
  case (Var v)
  from eqv_shape[OF Var(1) Var(3)] obtain w where b: "b = Formula VAR [] w" by auto
  from eqv_shape[OF Var(2) Var(4)] b obtain u where c: "c = Formula VAR [] u" by auto
  from Var b c show ?case by auto
next
  case (Not a v)
  from eqv_shape[OF Not(3) Not(5)] obtain b0 w
    where b: "b = Formula NOT [b0] w" "well_formed b0" by auto
  from eqv_shape[OF Not(4) Not(6)] b obtain c0 u
    where c: "c = Formula NOT [c0] u" "well_formed c0" by auto
  from Not(2)[of b0 c0] Not(5,6) b c show ?case by simp
next
  case (And a0 a1 v)
  from eqv_shape[OF And(5) And(7)] obtain b0 b1 w
    where b: "b = Formula AND [b0, b1] w" "well_formed b0" "well_formed b1" by auto
  from eqv_shape[OF And(6) And(8)] b obtain c0 c1 u
    where c: "c = Formula AND [c0, c1] u" "well_formed c0" "well_formed c1" by auto
  from And(7,8) have
    ab: "(eqv a0 b0 \<and> eqv a1 b1) \<or> (eqv a0 b1 \<and> eqv a1 b0)" and
    bc: "(eqv b0 c0 \<and> eqv b1 c1) \<or> (eqv b0 c1 \<and> eqv b1 c0)"
    using And(1,2) b c by (simp_all add: eqv_AND_iff)
  have "(eqv a0 c0 \<and> eqv a1 c1) \<or> (eqv a0 c1 \<and> eqv a1 c0)"
    using ab bc And(3)[of b0 c0] And(3)[of b0 c1] And(3)[of b1 c0] And(3)[of b1 c1]
      And(4)[of b0 c0] And(4)[of b0 c1] And(4)[of b1 c0] And(4)[of b1 c1] b(2,3) c(2,3)
    by blast
  then show ?case using And(1,2) c by (simp add: eqv_AND_iff)
next
  case (Or a0 a1 v)
  from eqv_shape[OF Or(5) Or(7)] obtain b0 b1 w
    where b: "b = Formula OR [b0, b1] w" "well_formed b0" "well_formed b1" by auto
  from eqv_shape[OF Or(6) Or(8)] b obtain c0 c1 u
    where c: "c = Formula OR [c0, c1] u" "well_formed c0" "well_formed c1" by auto
  from Or(7,8) have
    ab: "(eqv a0 b0 \<and> eqv a1 b1) \<or> (eqv a0 b1 \<and> eqv a1 b0)" and
    bc: "(eqv b0 c0 \<and> eqv b1 c1) \<or> (eqv b0 c1 \<and> eqv b1 c0)"
    using Or(1,2) b c by (simp_all add: eqv_OR_iff)
  have "(eqv a0 c0 \<and> eqv a1 c1) \<or> (eqv a0 c1 \<and> eqv a1 c0)"
    using ab bc Or(3)[of b0 c0] Or(3)[of b0 c1] Or(3)[of b1 c0] Or(3)[of b1 c1]
      Or(4)[of b0 c0] Or(4)[of b0 c1] Or(4)[of b1 c0] Or(4)[of b1 c1] b(2,3) c(2,3)
    by blast
  then show ?case using Or(1,2) c by (simp add: eqv_OR_iff)
next
  case (Impl a0 a1 v)
  from eqv_shape[OF Impl(5) Impl(7)] obtain b0 b1 w
    where b: "b = Formula IMPL [b0, b1] w" "well_formed b0" "well_formed b1" by auto
  from eqv_shape[OF Impl(6) Impl(8)] b obtain c0 c1 u
    where c: "c = Formula IMPL [c0, c1] u" "well_formed c0" "well_formed c1" by auto
  from Impl(7,8) have ab: "eqv a0 b0 \<and> eqv a1 b1" and bc: "eqv b0 c0 \<and> eqv b1 c1"
    using Impl(1,2) b c by (simp_all add: eqv_IMPL_iff)
  have "eqv a0 c0 \<and> eqv a1 c1"
    using ab bc Impl(3)[of b0 c0] Impl(4)[of b1 c1] b(2,3) c(2,3) by blast
  then show ?case using Impl(1,2) c by (simp add: eqv_IMPL_iff)
qed

section \<open>Properties of hashing\<close>

lemma Formula_hash_VAR:
  "Formula_hash H (Formula VAR cs v) = Inr (hash_tuple H [hash_str H ''VAR'', hash_str H v])"
  by (subst Formula_hash.simps) simp

lemma Formula_hash_NOT:
  "Formula_hash H (Formula NOT [a] v) =
     ebind (Formula_hash H a) (\<lambda>h. Inr (hash_tuple H [hash_str H ''NOT'', hash_int H h]))"
  by (subst Formula_hash.simps) (cases "Formula_hash H a"; simp)

lemma Formula_hash_AND:
  "Formula_hash H (Formula AND [a, b] v) =
     ebind (Formula_hash H a) (\<lambda>ha. ebind (Formula_hash H b) (\<lambda>hb.
     Inr (hash_tuple H [hash_str H ''AND'', hash_tuple H (map (hash_int H) (sort [ha, hb]))])))"
  by (subst Formula_hash.simps) (cases "Formula_hash H a"; cases "Formula_hash H b"; simp)

lemma Formula_hash_OR:
  "Formula_hash H (Formula OR [a, b] v) =
     ebind (Formula_hash H a) (\<lambda>ha. ebind (Formula_hash H b) (\<lambda>hb.
     Inr (hash_tuple H [hash_str H ''OR'', hash_tuple H (map (hash_int H) (sort [ha, hb]))])))"
  by (subst Formula_hash.simps) (cases "Formula_hash H a"; cases "Formula_hash H b"; simp)

lemma Formula_hash_IMPL:
  "Formula_hash H (Formula IMPL [a, b] v) =
     ebind (Formula_hash H a) (\<lambda>ha. ebind (Formula_hash H b) (\<lambda>hb.
     Inr (hash_tuple H [hash_str H ''IMPL'', hash_int H ha, hash_int H hb])))"
  by (subst Formula_hash.simps) (cases "Formula_hash H a"; cases "Formula_hash H b"; simp)

lemma Formula_hash_total: "well_formed f \<Longrightarrow> \<exists>h. Formula_hash H f = Inr h"
  by (induction f rule: well_formed_induct)
     (auto simp: Formula_hash_VAR Formula_hash_NOT Formula_hash_AND Formula_hash_OR
        Formula_hash_IMPL)

lemma sort_pair_swap: "sort [x, y] = sort [y, x::int]"
  by auto

lemma eqv_hash:
  "well_formed a \<Longrightarrow> well_formed b \<Longrightarrow> eqv a b \<Longrightarrow> Formula_hash H a = Formula_hash H b"
proof (induction a arbitrary: b rule: well_formed_induct)
  case (Var v)
  with eqv_shape[OF Var(1) Var(2)] show ?case by (auto simp: Formula_hash_VAR)
next
  case (Not a v)
  from eqv_shape[OF Not(3) Not(4)] obtain b0 w
    where b: "b = Formula NOT [b0] w" "well_formed b0" by auto
  with Not show ?case by (simp add: Formula_hash_NOT)
next
  case (And a0 a1 v)
  from eqv_shape[OF And(5) And(6)] obtain b0 b1 w
    where b: "b = Formula AND [b0, b1] w" "well_formed b0" "well_formed b1" by auto
  from And(6) b And(1,2)
  have "(eqv a0 b0 \<and> eqv a1 b1) \<or> (eqv a0 b1 \<and> eqv a1 b0)" by (simp add: eqv_AND_iff)
  then show ?case
  proof
    assume "eqv a0 b0 \<and> eqv a1 b1"
    with And(3)[of b0] And(4)[of b1] b show ?thesis by (simp add: Formula_hash_AND)
  next
    assume "eqv a0 b1 \<and> eqv a1 b0"
    with And(3)[of b1] And(4)[of b0] b
    have h: "Formula_hash H a0 = Formula_hash H b1" "Formula_hash H a1 = Formula_hash H b0"
      by simp_all
    from Formula_hash_total[OF b(2), of H] Formula_hash_total[OF b(3), of H]
    obtain h0 h1 where "Formula_hash H b0 = Inr h0" "Formula_hash H b1 = Inr h1" by blast
    with h b(1) show ?thesis by (simp add: Formula_hash_AND sort_pair_swap[of h0 h1])
  qed
next
  case (Or a0 a1 v)
  from eqv_shape[OF Or(5) Or(6)] obtain b0 b1 w
    where b: "b = Formula OR [b0, b1] w" "well_formed b0" "well_formed b1" by auto
  from Or(6) b Or(1,2)
  have "(eqv a0 b0 \<and> eqv a1 b1) \<or> (eqv a0 b1 \<and> eqv a1 b0)" by (simp add: eqv_OR_iff)
  then show ?case
  proof
    assume "eqv a0 b0 \<and> eqv a1 b1"
    with Or(3)[of b0] Or(4)[of b1] b show ?thesis by (simp add: Formula_hash_OR)
  next
    assume "eqv a0 b1 \<and> eqv a1 b0"
    with Or(3)[of b1] Or(4)[of b0] b
    have h: "Formula_hash H a0 = Formula_hash H b1" "Formula_hash H a1 = Formula_hash H b0"
      by simp_all
    from Formula_hash_total[OF b(2), of H] Formula_hash_total[OF b(3), of H]
    obtain h0 h1 where "Formula_hash H b0 = Inr h0" "Formula_hash H b1 = Inr h1" by blast
    with h b(1) show ?thesis by (simp add: Formula_hash_OR sort_pair_swap[of h0 h1])
  qed
next
  case (Impl a0 a1 v)
  from eqv_shape[OF Impl(5) Impl(6)] obtain b0 b1 w
    where b: "b = Formula IMPL [b0, b1] w" "well_formed b0" "well_formed b1" by auto
  from Impl(6) b Impl(1,2) have "eqv a0 b0 \<and> eqv a1 b1" by (simp add: eqv_IMPL_iff)
  with Impl(3)[of b0] Impl(4)[of b1] b show ?case by (simp add: Formula_hash_IMPL)
qed

section \<open>Properties of the normalizer\<close>

lemma normalize_node_AND:
  "normalize_node (Formula AND [a, b] v) =
     ebind (normalize_node a) (\<lambda>left_child.
     ebind (normalize_node b) (\<lambda>right_child.
     Inr (Formula NOT [Formula IMPL [left_child, Formula NOT [right_child] ''not''] ''implies'']
            ''not'')))"
  by (subst normalize_node.simps) (simp add: Let_def)

lemma normalize_node_OR:
  "normalize_node (Formula OR [a, b] v) =
     ebind (normalize_node a) (\<lambda>left_child.
     ebind (normalize_node b) (\<lambda>right_child.
     Inr (Formula IMPL [Formula NOT [left_child] ''not'', right_child] ''implies'')))"
  by (subst normalize_node.simps) (simp add: Let_def)

lemma normalize_node_other:
  "ftype f \<noteq> AND \<Longrightarrow> ftype f \<noteq> OR \<Longrightarrow> normalize_node f = Inr f"
  by (subst normalize_node.simps) simp

lemma normalize_node_total:
  "well_formed f \<Longrightarrow> \<exists>g. normalize_node f = Inr g \<and> well_formed g"
  by (induction f rule: well_formed_induct)
     (auto simp: normalize_node_AND normalize_node_OR normalize_node_other)

section \<open>Properties of matching and substitution\<close>

lemma copy_formula_id [simp]: "copy_formula f = f"
  by (induction f) (simp add: map_idI)

lemma extends_refl: "extends s s"
  by (simp add: extends_def)

lemma extends_trans: "extends s s' \<Longrightarrow> extends s' s'' \<Longrightarrow> extends s s''"
  by (simp add: extends_def)

lemma match_sound:
  "match_pattern p t s = Inr (Some s') \<Longrightarrow> well_formed t \<Longrightarrow> wf_subst s \<Longrightarrow>
     wf_subst s' \<and> extends s s' \<and>
     (\<forall>s''. extends s' s'' \<and> wf_subst s'' \<longrightarrow>
        well_formed (apply_substitution p s'') \<and> eqv (apply_substitution p s'') t)"
proof (induction p t s arbitrary: s' rule: match_pattern.induct)
  case (1 pattern target substitution)
  obtain pt pcs pv where p: "pattern = Formula pt pcs pv" by (cases pattern)
  note m = \<open>match_pattern pattern target substitution = Inr (Some s')\<close>
  note wt = \<open>well_formed target\<close>
  note ws = \<open>wf_subst substitution\<close>
  show ?case
  proof (cases "pt = VAR")
    case True
    show ?thesis
    proof (cases "map_of substitution pv")
      case None
      with m p True have s': "s' = substitution @ [(pv, target)]"
        by (subst (asm) match_pattern.simps) (simp add: Let_def)
      have look: "map_of s' pv = Some target" using None s' by (simp add: map_add_def)
      have ext: "extends substitution s'"
        using None s' by (auto simp: extends_def map_add_def)
      have wf: "wf_subst s'"
        using ws wt s' by (auto simp: wf_subst_def map_add_def split: option.splits if_splits)
      have "\<forall>s''. extends s' s'' \<and> wf_subst s'' \<longrightarrow>
            well_formed (apply_substitution pattern s'') \<and> eqv (apply_substitution pattern s'') target"
        using look wt p True eqv_refl[OF wt] by (auto simp: extends_def)
      with ext wf show ?thesis by blast
    next
      case (Some bound)
      with m p True have e: "eqv bound target" and s': "s' = substitution"
        by (subst (asm) match_pattern.simps, auto simp: Let_def ebind_eq_Inr split: if_splits)+
      have wb: "well_formed bound" using ws Some by (auto simp: wf_subst_def)
      have "\<forall>s''. extends s' s'' \<and> wf_subst s'' \<longrightarrow>
            well_formed (apply_substitution pattern s'') \<and> eqv (apply_substitution pattern s'') target"
        using Some s' e wb p True by (auto simp: extends_def)
      with s' ws show ?thesis by (auto simp: extends_refl)
    qed
  next
    case False
    note nv = False
    from m p nv have ty: "ftype target = pt"
      by (subst (asm) match_pattern.simps) (auto split: if_splits)
    from nv p have nv': "ftype pattern \<noteq> VAR" by simp
    from ty p have ty': "\<not> ftype pattern \<noteq> ftype target" by simp
    show ?thesis
    proof (cases "pt = NOT")
      case True
      from m p nv ty True have len: "length pcs = 1" "length (children target) = 1"
        by (subst (asm) match_pattern.simps, auto split: if_splits)+
      then obtain pc where pcs: "pcs = [pc]" by (auto simp: length_Suc_conv)
      from wt ty True obtain tc tv where t: "target = Formula NOT [tc] tv" "well_formed tc"
        by (cases target rule: well_formed_cases) auto
      from m p nv True pcs t have mc: "match_pattern pc tc substitution = Inr (Some s')"
        by (subst (asm) match_pattern.simps) simp
      have "wf_subst s' \<and> extends substitution s' \<and>
        (\<forall>s''. extends s' s'' \<and> wf_subst s'' \<longrightarrow>
           well_formed (apply_substitution pc s'') \<and> eqv (apply_substitution pc s'') tc)"
        using 1(1)[OF nv' ty' _ _ _ _ ws, of s'] p True pcs t mc by simp
      then show ?thesis using p True pcs t by simp
    next
      case False
      note nn = False
      with nv have bin: "pt = AND \<or> pt = OR \<or> pt = IMPL" by (cases pt) auto
      from m p nv ty nn bin have len: "length pcs = 2" "length (children target) = 2"
        by (subst (asm) match_pattern.simps, auto split: if_splits)+
      then obtain p0 p1 where pcs: "pcs = [p0, p1]"
        by (auto simp: length_Suc_conv numeral_2_eq_2)
      from wt ty bin obtain t0 t1 tv where
        t: "target = Formula pt [t0, t1] tv" "well_formed t0" "well_formed t1"
        by (cases target rule: well_formed_cases) auto
      from m p nv nn bin pcs t obtain s1 where
        m0: "match_pattern p0 t0 substitution = Inr (Some s1)" and
        m1: "match_pattern p1 t1 s1 = Inr (Some s')"
        by (subst (asm) match_pattern.simps)
           (auto simp: ebind_eq_Inr split: option.splits if_splits)
      from nn p have nn': "ftype pattern \<noteq> NOT" by simp
      from bin p have bin': "ftype pattern = AND \<or> ftype pattern = OR \<or> ftype pattern = IMPL"
        by simp
      from len p have len': "\<not> (length (children pattern) \<noteq> 2 \<or> length (children target) \<noteq> 2)"
        by simp
      have ih0: "wf_subst s1 \<and> extends substitution s1 \<and>
        (\<forall>s''. extends s1 s'' \<and> wf_subst s'' \<longrightarrow>
           well_formed (apply_substitution p0 s'') \<and> eqv (apply_substitution p0 s'') t0)"
        using 1(2)[OF nv' ty' nn' bin' len' _ _ ws, of s1] p pcs t m0 by simp
      have ih1: "wf_subst s' \<and> extends s1 s' \<and>
        (\<forall>s''. extends s' s'' \<and> wf_subst s'' \<longrightarrow>
           well_formed (apply_substitution p1 s'') \<and> eqv (apply_substitution p1 s'') t1)"
        using 1(3)[OF nv' ty' nn' bin' len' _ _ _ _ _, of "Some s1" s1 s'] p pcs t m0 m1 ih0
        by simp
      have ext: "extends substitution s'" using ih0 ih1 extends_trans by blast
      have "\<forall>s''. extends s' s'' \<and> wf_subst s'' \<longrightarrow>
            well_formed (apply_substitution pattern s'') \<and> eqv (apply_substitution pattern s'') target"
      proof (intro allI impI)
        fix s'' assume a: "extends s' s'' \<and> wf_subst s''"
        with ih1 have e1: "extends s1 s''" using extends_trans by blast
        from ih0 e1 a have c0: "well_formed (apply_substitution p0 s'')"
          "eqv (apply_substitution p0 s'') t0" by blast+
        from ih1 a have c1: "well_formed (apply_substitution p1 s'')"
          "eqv (apply_substitution p1 s'') t1" by blast+
        from bin nv c0 c1 t p pcs
        show "well_formed (apply_substitution pattern s'') \<and> eqv (apply_substitution pattern s'') target"
          by (auto simp: eqv_AND_iff eqv_OR_iff eqv_IMPL_iff)
      qed
      with ih1 ext show ?thesis by blast
    qed
  qed
qed

section \<open>Properties of the prover\<close>

lemma find_hypothesis_none:
  "(\<forall>h \<in> set hyps. is_equal (Some h) (Some t) = Inr False) \<Longrightarrow> find_hypothesis hyps i t = Inr None"
  by (induction hyps arbitrary: i) simp_all

lemma prove_deduction_step:
  assumes "cache_get H self (Formula IMPL [left, right] v, hyps, depth) = Inr None"
    and "depth \<le> max_depth"
    and "\<forall>h \<in> set hyps. is_equal (Some h) (Some (Formula IMPL [left, right] v)) = Inr False"
    and "prove H self right (hyps @ [left]) (depth + 1) max_depth = Inr (Some sub, self1)"
  shows "prove H self (Formula IMPL [left, right] v) hyps depth max_depth =
           ebind (cache_set H self1 (Formula IMPL [left, right] v, hyps, depth) [Deduction left right sub])
             (\<lambda>self'. Inr (Some [Deduction left right sub], self'))"
  using assms find_hypothesis_none[OF assms(3), of 0]
  by (subst prove.simps) (simp add: Let_def)

lemma prove_all_dom: "prove_dom (H, self, target, hypotheses, depth, max_depth)"
proof -
  have "All prove_dom"
    by (relation "measure (\<lambda>(H, self, target, hypotheses, depth, max_depth). nat (max_depth + 1 - depth))")
       auto
  then show ?thesis by blast
qed

lemma prove_rel_depth:
  assumes "prove_rel (H', self', target', hypotheses', depth', max_depth')
             (H, self, target, hypotheses, depth, max_depth)"
  shows "depth' = depth + 1 \<and> max_depth' = max_depth \<and> depth \<le> max_depth"
  using assms by (cases rule: prove_rel.cases) auto

lemma prove_depth_gate:
  "max_depth < depth \<Longrightarrow> cache_get H self (target, hypotheses, depth) = Inr None \<Longrightarrow>
     prove H self target hypotheses depth max_depth = Inr (None, self)"
  by (subst prove.simps) (simp add: Let_def)

lemma prove_cached:
  "cache_get H self (target, hypotheses, depth) = Inr (Some prf) \<Longrightarrow>
     prove H self target hypotheses depth max_depth = Inr (Some prf, self)"
  by (subst prove.simps) (simp add: Let_def)

subsection \<open>The prover does not raise on well-formed input\<close>

lemma tuple_equal_total:
  "\<forall>x \<in> set xs. well_formed x \<Longrightarrow> \<forall>y \<in> set ys. well_formed y \<Longrightarrow>
     \<exists>r. tuple_equal xs ys = Inr r"
proof (induction xs ys rule: tuple_equal.induct)
  case (4 x xs y ys)
  from 4(2,3) is_equal_total[of x y] obtain r where r: "is_equal (Some x) (Some y) = Inr r"
    by auto
  with 4 show ?case by (cases r) auto
qed auto

lemma key_equal_total: "wf_key k1 \<Longrightarrow> wf_key k2 \<Longrightarrow> \<exists>r. key_equal k1 k2 = Inr r"
proof -
  assume a: "wf_key k1" "wf_key k2"
  obtain t1 hs1 d1 t2 hs2 d2 where k: "k1 = (t1, hs1, d1)" "k2 = (t2, hs2, d2)"
    by (cases k1, cases k2) auto
  from a k is_equal_total[of t1 t2] obtain r where r: "is_equal (Some t1) (Some t2) = Inr r"
    by (auto simp: wf_key_def)
  from a k tuple_equal_total[of hs1 hs2] obtain r' where r': "tuple_equal hs1 hs2 = Inr r'"
    by (auto simp: wf_key_def)
  from k r r' show ?thesis by (auto simp: key_equal_def)
qed

lemma cache_find_total:
  "\<forall>(h', key', v) \<in> set c. wf_key key' \<Longrightarrow> wf_key key \<Longrightarrow> \<exists>r. cache_find h key c = Inr r"
proof (induction c)
  case (Cons e c)
  obtain h' key' v where e: "e = (h', key', v)" by (cases e)
  with Cons(2,3) key_equal_total[of key' key] obtain r where "key_equal key' key = Inr r"
    by auto
  with Cons e show ?case by auto
qed simp

lemma cache_store_total:
  "\<forall>(h', key', v') \<in> set c. wf_key key' \<Longrightarrow> wf_key key \<Longrightarrow>
     \<exists>c'. cache_store h key v c = Inr c' \<and> (\<forall>(h', key', v') \<in> set c'. wf_key key')"
proof (induction c)
  case (Cons e c)
  obtain h' key' v' where e: "e = (h', key', v')" by (cases e)
  with Cons(2,3) key_equal_total[of key' key] obtain r where r: "key_equal key' key = Inr r"
    by auto
  from Cons obtain c' where c': "cache_store h key v c = Inr c'"
    "\<forall>(h', key', v') \<in> set c'. wf_key key'" by auto
  with Cons(2) e r show ?case by auto
qed simp

lemma traverse_hash_total:
  "\<forall>x \<in> set xs. well_formed x \<Longrightarrow> \<exists>hs. traverse (Formula_hash H) xs = Inr hs"
proof (induction xs)
  case (Cons x xs)
  from Cons(2) Formula_hash_total[of x H] obtain h where "Formula_hash H x = Inr h" by auto
  with Cons show ?case by auto
qed simp

lemma key_hash_total: "wf_key key \<Longrightarrow> \<exists>h. key_hash H key = Inr h"
proof -
  assume a: "wf_key key"
  obtain t hs d where k: "key = (t, hs, d)" by (cases key)
  from a k Formula_hash_total[of t H] obtain h where "Formula_hash H t = Inr h"
    by (auto simp: wf_key_def)
  moreover from a k traverse_hash_total[of hs H] obtain hh where
    "traverse (Formula_hash H) hs = Inr hh" by (auto simp: wf_key_def)
  ultimately show ?thesis using k by (simp add: key_hash_def)
qed

lemma cache_get_total: "wf_prover self \<Longrightarrow> wf_key key \<Longrightarrow> \<exists>r. cache_get H self key = Inr r"
  using key_hash_total[of key H] cache_find_total[of "proof_cache self" key]
  by (auto simp: cache_get_def wf_prover_def)

lemma cache_set_total:
  "wf_prover self \<Longrightarrow> wf_key key \<Longrightarrow>
     \<exists>self'. cache_set H self key v = Inr self' \<and> wf_prover self'"
proof -
  assume a: "wf_prover self" "wf_key key"
  from key_hash_total[OF a(2), of H] obtain h where h: "key_hash H key = Inr h" by blast
  from a cache_store_total[of "proof_cache self" key h v] obtain c' where
    "cache_store h key v (proof_cache self) = Inr c'" "\<forall>(h', key', v') \<in> set c'. wf_key key'"
    by (auto simp: wf_prover_def)
  with h show ?thesis by (simp add: cache_set_def wf_prover_def)
qed

lemma find_hypothesis_total:
  "\<forall>h \<in> set hyps. well_formed h \<Longrightarrow> well_formed t \<Longrightarrow> \<exists>r. find_hypothesis hyps i t = Inr r"
proof (induction hyps arbitrary: i)
  case (Cons hyp rest)
  from Cons(2,3) is_equal_total[of hyp t] obtain r where "is_equal (Some hyp) (Some t) = Inr r"
    by auto
  with Cons show ?case by (cases r) auto
qed simp

lemma well_formed_child: "well_formed f \<Longrightarrow> c \<in> set (children f) \<Longrightarrow> well_formed c"
  by (cases f) auto

lemma match_total:
  "well_formed t \<Longrightarrow> wf_subst s \<Longrightarrow> \<exists>r. match_pattern p t s = Inr r"
proof (induction p t s rule: match_pattern.induct)
  case (1 pattern target substitution)
  note wt = \<open>well_formed target\<close> and ws = \<open>wf_subst substitution\<close>
  show ?case
  proof (cases "ftype pattern = VAR")
    case True
    show ?thesis
    proof (cases "map_of substitution (fvalue pattern)")
      case None
      with True show ?thesis by (subst match_pattern.simps) (simp add: Let_def)
    next
      case (Some bound)
      with ws have "well_formed bound" by (auto simp: wf_subst_def)
      from is_equal_total[OF this wt] obtain r where "is_equal (Some bound) (Some target) = Inr r"
        by blast
      with True Some show ?thesis by (subst match_pattern.simps) (simp add: Let_def)
    qed
  next
    case False
    note nv = False
    show ?thesis
    proof (cases "ftype pattern \<noteq> ftype target")
      case True
      with nv show ?thesis by (subst match_pattern.simps) simp
    next
      case False
      note ty = False
      show ?thesis
      proof (cases "ftype pattern = NOT")
        case True
        note isn = True
        show ?thesis
        proof (cases "length (children pattern) \<noteq> 1 \<or> length (children target) \<noteq> 1")
          case True
          with nv ty isn show ?thesis by (subst match_pattern.simps) simp
        next
          case False
          then have "children target ! 0 \<in> set (children target)" by simp
          with wt have "well_formed (children target ! 0)" by (rule well_formed_child)
          from 1(1)[OF nv ty isn False this ws] nv ty isn False
          show ?thesis by (subst match_pattern.simps) simp
        qed
      next
        case False
        note nn = False
        with nv have bin: "ftype pattern = AND \<or> ftype pattern = OR \<or> ftype pattern = IMPL"
          by (cases "ftype pattern") auto
        show ?thesis
        proof (cases "length (children pattern) \<noteq> 2 \<or> length (children target) \<noteq> 2")
          case True
          with nv ty nn bin show ?thesis by (subst match_pattern.simps) auto
        next
          case False
          note len = False
          then have "children target ! 0 \<in> set (children target)"
            "children target ! 1 \<in> set (children target)" by simp_all
          with wt have w0: "well_formed (children target ! 0)"
            and w1: "well_formed (children target ! 1)" by (auto intro: well_formed_child)
          from 1(2)[OF nv ty nn bin len w0 ws] obtain r0 where
            r0: "match_pattern (children pattern ! 0) (children target ! 0) substitution = Inr r0"
            by blast
          show ?thesis
          proof (cases r0)
            case None
            with r0 nv ty nn bin len show ?thesis by (subst match_pattern.simps) auto
          next
            case (Some s1)
            with r0 match_sound[OF _ w0 ws, of "children pattern ! 0" s1]
            have ws1: "wf_subst s1" by simp
            from 1(3)[OF nv ty nn bin len r0 Some w1 ws1] r0 Some nv ty nn bin len
            show ?thesis by (subst match_pattern.simps) auto
          qed
        qed
      qed
    qed
  qed
qed

lemma match_axioms_total: "well_formed t \<Longrightarrow> \<exists>r. match_axioms axs i t = Inr r"
proof (induction axs arbitrary: i)
  case (Cons ax rest)
  have "wf_subst []" by (simp add: wf_subst_def)
  from match_total[OF Cons(2) this, of ax] obtain r where "match_pattern ax t [] = Inr r"
    by blast
  with Cons show ?case by (cases r) auto
qed simp

lemma mp_loop_total:
  assumes f: "\<And>left s. well_formed left \<Longrightarrow> Inv s \<Longrightarrow> \<exists>r s'. f left s = Inr (r, s') \<and> Inv s'"
  shows "\<forall>h \<in> set hyps. well_formed h \<Longrightarrow> well_formed t \<Longrightarrow> Inv s \<Longrightarrow>
           \<exists>r s'. mp_loop f hyps i t s = Inr (r, s') \<and> Inv s'"
proof (induction hyps arbitrary: i s)
  case Nil
  then show ?case by simp
next
  case (Cons hyp rest)
  from Cons(2) have wh: "well_formed hyp" and wr: "\<forall>h \<in> set rest. well_formed h" by simp_all
  show ?case
  proof (cases "ftype hyp = IMPL")
    case False
    with Cons.IH[OF wr Cons(3,4)] show ?thesis by simp
  next
    case True
    with wh obtain a b v where hyp: "hyp = Formula IMPL [a, b] v" "well_formed a" "well_formed b"
      by (cases hyp rule: well_formed_cases) auto
    from is_equal_total[OF hyp(3) Cons(3)] obtain r where r: "is_equal (Some b) (Some t) = Inr r"
      by blast
    show ?thesis
    proof (cases r)
      case False
      with r hyp Cons.IH[OF wr Cons(3,4)] show ?thesis by simp
    next
      case True
      from f[OF hyp(2) Cons(4)] obtain pl s' where pl: "f a s = Inr (pl, s')" "Inv s'" by blast
      show ?thesis
      proof (cases pl)
        case None
        with pl r True hyp Cons.IH[OF wr Cons(3) pl(2)] show ?thesis by simp
      next
        case (Some p)
        with pl r True hyp show ?thesis by simp
      qed
    qed
  qed
qed

lemma prove_total:
  "wf_prover self \<Longrightarrow> well_formed target \<Longrightarrow> \<forall>h \<in> set hypotheses. well_formed h \<Longrightarrow>
     \<exists>r self'. prove H self target hypotheses depth max_depth = Inr (r, self') \<and> wf_prover self'"
proof (induction H self target hypotheses depth max_depth rule: prove.induct)
  case (1 H self target hypotheses depth max_depth)
  let ?key = "(target, hypotheses, depth)"
  note wp = \<open>wf_prover self\<close> and wt = \<open>well_formed target\<close>
    and wh = \<open>\<forall>h \<in> set hypotheses. well_formed h\<close>
  have wk: "wf_key ?key" using wt wh by (simp add: wf_key_def)
  from cache_get_total[OF wp wk, of H] obtain cached where
    cg: "cache_get H self ?key = Inr cached" by blast
  show ?case
  proof (cases cached)
    case (Some cp)
    with cg wp show ?thesis by (simp add: prove_cached)
  next
    case None
    note miss = None
    show ?thesis
    proof (cases "max_depth < depth")
      case True
      with cg miss wp show ?thesis by (simp add: prove_depth_gate)
    next
      case False
      note dep = False
      from find_hypothesis_total[OF wh wt, of 0] obtain found where
        fh: "find_hypothesis hypotheses 0 target = Inr found" by blast
      show ?thesis
      proof (cases found)
        case (Some i)
        from cache_set_total[OF wp wk, of H "[Hypothesis i target]"] obtain self' where
          "cache_set H self ?key [Hypothesis i target] = Inr self'" "wf_prover self'" by blast
        with cg miss dep fh Some show ?thesis
          by (subst prove.simps) (simp add: Let_def)
      next
        case None
        note nofound = None
        let ?D = "(if ftype target = IMPL then
                     ebind (index (children target) 0) (\<lambda>left.
                     ebind (index (children target) 1) (\<lambda>right.
                     ebind (prove H self right (hypotheses @ [left]) (depth + 1) max_depth)
                       (\<lambda>(proof_right, self1).
                     case proof_right of
                       Some pr \<Rightarrow> Inr (Some [Deduction left right pr], self1)
                     | None \<Rightarrow> Inr (None, self1))))
                   else Inr (None, self))"
        have "\<exists>d self1. ?D = Inr (d, self1) \<and> wf_prover self1"
        proof (cases "ftype target = IMPL")
          case False
          with wp show ?thesis by simp
        next
          case True
          with wt obtain l r v where t: "target = Formula IMPL [l, r] v" "well_formed l"
            "well_formed r" by (cases target rule: well_formed_cases) auto
          have i0: "index (children target) 0 = Inr l" and i1: "index (children target) 1 = Inr r"
            using t by simp_all
          have "\<forall>h \<in> set (hypotheses @ [l]). well_formed h" using wh t by simp
          from 1(1)[OF refl cg miss dep fh nofound True i0 i1 wp t(3) this]
          obtain pr self1 where
            "prove H self r (hypotheses @ [l]) (depth + 1) max_depth = Inr (pr, self1)"
            "wf_prover self1" by blast
          with True i0 i1 show ?thesis by (cases pr) auto
        qed
        then obtain d self1 where D: "?D = Inr (d, self1)" and w1: "wf_prover self1" by blast
        show ?thesis
        proof (cases d)
          case (Some cp)
          from cache_set_total[OF w1 wk, of H cp] obtain self' where
            "cache_set H self1 ?key cp = Inr self'" "wf_prover self'" by blast
          with cg miss dep fh nofound D Some show ?thesis
            by (subst prove.simps) (simp add: Let_def)
        next
          case None
          note nod = None
          have f: "\<And>left s. well_formed left \<Longrightarrow> wf_prover s \<Longrightarrow>
                     \<exists>r s'. prove H s left hypotheses (depth + 1) max_depth = Inr (r, s') \<and> wf_prover s'"
            using 1(2)[OF refl cg miss dep fh nofound D refl nod _ _ wh] by blast
          from mp_loop_total[where f = "\<lambda>left s. prove H s left hypotheses (depth + 1) max_depth"
              and Inv = wf_prover, OF f wh wt w1, of 0]
          obtain mp self2 where
            mp: "mp_loop (\<lambda>left s. prove H s left hypotheses (depth + 1) max_depth)
                   hypotheses 0 target self1 = Inr (mp, self2)" and w2: "wf_prover self2"
            by blast
          show ?thesis
          proof (cases mp)
            case (Some ip)
            obtain i pl where ip: "ip = (i, pl)" by (cases ip)
            from cache_set_total[OF w2 wk, of H "[ModusPonens i pl target]"] obtain self' where
              "cache_set H self2 ?key [ModusPonens i pl target] = Inr self'" "wf_prover self'"
              by blast
            with cg miss dep fh nofound D nod mp Some ip show ?thesis
              by (subst prove.simps) (simp add: Let_def)
          next
            case None
            note nomp = None
            from match_axioms_total[OF wt, of "axioms self2" 0] obtain matched where
              ma: "match_axioms (axioms self2) 0 target = Inr matched" by blast
            show ?thesis
            proof (cases matched)
              case None
              with cg miss dep fh nofound D nod mp nomp ma w2 show ?thesis
                by (subst prove.simps) (simp add: Let_def)
            next
              case (Some ns)
              obtain n sub where ns: "ns = (n, sub)" by (cases ns)
              from cache_set_total[OF w2 wk, of H "[Axiom n sub target]"] obtain self' where
                "cache_set H self2 ?key [Axiom n sub target] = Inr self'" "wf_prover self'"
                by blast
              with cg miss dep fh nofound D nod mp nomp ma Some ns show ?thesis
                by (subst prove.simps) (simp add: Let_def)
            qed
          qed
        qed
      qed
    qed
  qed
qed

lemma Prover_init_value: "Prover_init = Inr fresh_prover"
  by code_simp

lemma parse_implies_A_A:
  "parse ''(implies A A)'' = Inr (Formula IMPL [Formula VAR [] ''A'', Formula VAR [] ''A''] ''implies'')"
  by code_simp

lemma cache_get_empty:
  "proof_cache self = [] \<Longrightarrow> wf_key key \<Longrightarrow> cache_get H self key = Inr None"
  using key_hash_total[of key H] by (auto simp: cache_get_def)

lemma prove_hypothesis_step:
  assumes "cache_get H self (target, hyps, depth) = Inr None"
    and "depth \<le> max_depth"
    and "find_hypothesis hyps 0 target = Inr (Some i)"
  shows "prove H self target hyps depth max_depth =
           ebind (cache_set H self (target, hyps, depth) [Hypothesis i target])
             (\<lambda>self'. Inr (Some [Hypothesis i target], self'))"
  using assms by (subst prove.simps) (simp add: Let_def)

lemma prove_mp_step:
  assumes "cache_get H self (target, hyps, depth) = Inr None"
    and "depth \<le> max_depth"
    and "find_hypothesis hyps 0 target = Inr None"
    and "(ftype target \<noteq> IMPL \<and> self1 = self) \<or>
         (\<exists>left right v. target = Formula IMPL [left, right] v \<and>
            prove H self right (hyps @ [left]) (depth + 1) max_depth = Inr (None, self1))"
    and "mp_loop (\<lambda>left s. prove H s left hyps (depth + 1) max_depth) hyps 0 target self1
           = Inr (Some (i, proof_left), self2)"
  shows "prove H self target hyps depth max_depth =
           ebind (cache_set H self2 (target, hyps, depth) [ModusPonens i proof_left target])
             (\<lambda>self'. Inr (Some [ModusPonens i proof_left target], self'))"
  using assms(4)
proof
  assume "ftype target \<noteq> IMPL \<and> self1 = self"
  with assms(1,2,3,5) show ?thesis by (subst prove.simps) (simp add: Let_def)
next
  assume "\<exists>left right v. target = Formula IMPL [left, right] v \<and>
            prove H self right (hyps @ [left]) (depth + 1) max_depth = Inr (None, self1)"
  then obtain left right v where "target = Formula IMPL [left, right] v"
    "prove H self right (hyps @ [left]) (depth + 1) max_depth = Inr (None, self1)" by blast
  with assms(1,2,3,5) show ?thesis by (subst prove.simps) (simp add: Let_def)
qed

lemma prove_axiom_step:
  assumes "cache_get H self (target, hyps, depth) = Inr None"
    and "depth \<le> max_depth"
    and "find_hypothesis hyps 0 target = Inr None"
    and "(ftype target \<noteq> IMPL \<and> self1 = self) \<or>
         (\<exists>left right v. target = Formula IMPL [left, right] v \<and>
            prove H self right (hyps @ [left]) (depth + 1) max_depth = Inr (None, self1))"
    and "mp_loop (\<lambda>left s. prove H s left hyps (depth + 1) max_depth) hyps 0 target self1
           = Inr (None, self2)"
  shows "prove H self target hyps depth max_depth =
           ebind (match_axioms (axioms self2) 0 target) (\<lambda>matched.
           case matched of
             Some (axiom_number, substitution) \<Rightarrow>
               ebind (cache_set H self2 (target, hyps, depth) [Axiom axiom_number substitution target])
                 (\<lambda>self'. Inr (Some [Axiom axiom_number substitution target], self'))
           | None \<Rightarrow> Inr (None, self2))"
  using assms(4)
proof
  assume "ftype target \<noteq> IMPL \<and> self1 = self"
  with assms(1,2,3,5) show ?thesis by (subst prove.simps) (simp add: Let_def)
next
  assume "\<exists>left right v. target = Formula IMPL [left, right] v \<and>
            prove H self right (hyps @ [left]) (depth + 1) max_depth = Inr (None, self1)"
  then obtain left right v where "target = Formula IMPL [left, right] v"
    "prove H self right (hyps @ [left]) (depth + 1) max_depth = Inr (None, self1)" by blast
  with assms(1,2,3,5) show ?thesis by (subst prove.simps) (simp add: Let_def)
qed

lemma prove_self_implication:
  assumes "proof_cache self = []" "well_formed x" "1 \<le> max_depth"
  shows "\<exists>self'. prove H self (Formula IMPL [x, x] v) [] 0 max_depth
           = Inr (Some [Deduction x x [Hypothesis 0 x]], self')"
proof -
  have wp: "wf_prover self" using assms(1) by (simp add: wf_prover_def)
  have k1: "wf_key (x, [x], 1)" and k0: "wf_key (Formula IMPL [x, x] v, [], 0)"
    using assms(2) by (simp_all add: wf_key_def)
  have fh: "find_hypothesis [x] 0 x = Inr (Some 0)" using eqv_refl[OF assms(2)] by simp
  from cache_set_total[OF wp k1, of H "[Hypothesis 0 x]"] obtain self1 where
    s1: "cache_set H self (x, [x], 1) [Hypothesis 0 x] = Inr self1" "wf_prover self1" by blast
  have inner: "prove H self x ([] @ [x]) (0 + 1) max_depth = Inr (Some [Hypothesis 0 x], self1)"
    using prove_hypothesis_step[OF cache_get_empty[OF assms(1) k1] _ fh, of max_depth] assms(3) s1
    by simp
  from cache_set_total[OF s1(2) k0, of H "[Deduction x x [Hypothesis 0 x]]"] obtain self' where
    s2: "cache_set H self1 (Formula IMPL [x, x] v, [], 0) [Deduction x x [Hypothesis 0 x]] = Inr self'"
    by blast
  have "prove H self (Formula IMPL [x, x] v) [] 0 max_depth
          = Inr (Some [Deduction x x [Hypothesis 0 x]], self')"
    using prove_deduction_step[OF cache_get_empty[OF assms(1) k0] _ _ inner] assms(3) s2
    by simp
  then show ?thesis by blast
qed

subsection \<open>The loops take the first success in list order\<close>

lemma find_hypothesis_first:
  "i < length hyps \<Longrightarrow> is_equal (Some (hyps ! i)) (Some t) = Inr True
     \<Longrightarrow> \<forall>k < i. is_equal (Some (hyps ! k)) (Some t) = Inr False
     \<Longrightarrow> find_hypothesis hyps i0 t = Inr (Some (i0 + i))"
proof (induction hyps arbitrary: i i0)
  case Nil
  then show ?case by simp
next
  case (Cons h rest)
  show ?case
  proof (cases i)
    case 0
    with Cons.prems show ?thesis by simp
  next
    case (Suc i')
    with Cons.prems have h: "is_equal (Some h) (Some t) = Inr False" by auto
    have "find_hypothesis rest (i0 + 1) t = Inr (Some (i0 + 1 + i'))"
    proof (rule Cons.IH)
      show "i' < length rest" using Cons.prems Suc by simp
      show "is_equal (Some (rest ! i')) (Some t) = Inr True" using Cons.prems Suc by simp
      show "\<forall>k < i'. is_equal (Some (rest ! k)) (Some t) = Inr False"
      proof (intro allI impI)
        fix k assume "k < i'"
        then have "Suc k < i" using Suc by simp
        with Cons.prems(3) have "is_equal (Some ((h # rest) ! Suc k)) (Some t) = Inr False" by blast
        then show "is_equal (Some (rest ! k)) (Some t) = Inr False" by simp
      qed
    qed
    with h Suc show ?thesis by simp
  qed
qed

lemma mp_loop_passed:
  "mp_passed f h t s s' \<Longrightarrow> mp_loop f (h # rest) i t s = mp_loop f rest (i + 1) t s'"
  by (auto simp: mp_passed_def mp_candidate_def mp_skipped_def
           split: if_splits sum.splits)

lemma mp_loop_candidate:
  "mp_candidate h t \<Longrightarrow> index (children h) 0 = Inr left \<Longrightarrow> f left s = Inr (Some pl, s')
     \<Longrightarrow> mp_loop f (h # rest) i t s = Inr (Some (i, pl), s')"
  by (auto simp: mp_candidate_def split: sum.splits)

lemma mp_loop_prefix:
  "mp_tried_in_vain f hyps t ss j
     \<Longrightarrow> mp_loop f hyps i0 t (ss ! 0) = mp_loop f (drop j hyps) (i0 + j) t (ss ! j)"
proof (induction j arbitrary: hyps ss i0)
  case 0
  then show ?case by simp
next
  case (Suc j)
  from Suc.prems obtain h rest where hyps: "hyps = h # rest"
    by (cases hyps) (auto simp: mp_tried_in_vain_def)
  from Suc.prems obtain s0 ss' where ss: "ss = s0 # ss'"
    by (cases ss) (auto simp: mp_tried_in_vain_def)
  from Suc.prems have "mp_passed f (hyps ! 0) t (ss ! 0) (ss ! (0 + 1))"
    unfolding mp_tried_in_vain_def by blast
  then have p0: "mp_passed f h t s0 (ss' ! 0)" using hyps ss by simp
  have tl: "mp_tried_in_vain f rest t ss' j"
    unfolding mp_tried_in_vain_def
  proof (intro conjI allI impI)
    show "j \<le> length rest" using Suc.prems hyps by (simp add: mp_tried_in_vain_def)
    show "length ss' = j + 1" using Suc.prems ss by (simp add: mp_tried_in_vain_def)
    fix k assume "k < j"
    then have "Suc k < Suc j" by simp
    with Suc.prems have "mp_passed f (hyps ! Suc k) t (ss ! Suc k) (ss ! (Suc k + 1))"
      unfolding mp_tried_in_vain_def by blast
    then show "mp_passed f (rest ! k) t (ss' ! k) (ss' ! (k + 1))" using hyps ss by simp
  qed
  have "mp_loop f hyps i0 t (ss ! 0) = mp_loop f rest (i0 + 1) t (ss' ! 0)"
    using mp_loop_passed[OF p0] hyps ss by simp
  also have "\<dots> = mp_loop f (drop j rest) (i0 + 1 + j) t (ss' ! j)"
    by (rule Suc.IH[OF tl])
  finally show ?case using hyps ss by simp
qed

lemma mp_loop_first:
  assumes "mp_tried_in_vain f hyps t ss j" and "j < length hyps"
    and "mp_candidate (hyps ! j) t" and "index (children (hyps ! j)) 0 = Inr left"
    and "f left (ss ! j) = Inr (Some pl, s')"
  shows "mp_loop f hyps 0 t (ss ! 0) = Inr (Some (j, pl), s')"
proof -
  from assms(2) have d: "drop j hyps = hyps ! j # drop (Suc j) hyps"
    by (simp add: Cons_nth_drop_Suc)
  show ?thesis
    using mp_loop_prefix[OF assms(1), of 0]
      mp_loop_candidate[of "hyps ! j" t left f "ss ! j" pl s' "drop (Suc j) hyps" j] assms(3,4,5)
    by (simp add: d)
qed

lemma mp_loop_none:
  assumes "mp_tried_in_vain f hyps t ss (length hyps)"
  shows "mp_loop f hyps 0 t (ss ! 0) = Inr (None, ss ! length hyps)"
  using mp_loop_prefix[OF assms, of 0] by simp

lemma match_axioms_first:
  "n < length axs \<Longrightarrow> match_pattern (axs ! n) t [] = Inr (Some sub)
     \<Longrightarrow> \<forall>k < n. match_pattern (axs ! k) t [] = Inr None
     \<Longrightarrow> match_axioms axs i0 t = Inr (Some (i0 + n + 1, sub))"
proof (induction axs arbitrary: n i0)
  case Nil
  then show ?case by simp
next
  case (Cons a rest)
  show ?case
  proof (cases n)
    case 0
    with Cons.prems show ?thesis by simp
  next
    case (Suc n')
    with Cons.prems have h: "match_pattern a t [] = Inr None" by auto
    have "match_axioms rest (i0 + 1) t = Inr (Some (i0 + 1 + n' + 1, sub))"
    proof (rule Cons.IH)
      show "n' < length rest" using Cons.prems Suc by simp
      show "match_pattern (rest ! n') t [] = Inr (Some sub)" using Cons.prems Suc by simp
      show "\<forall>k < n'. match_pattern (rest ! k) t [] = Inr None"
      proof (intro allI impI)
        fix k assume "k < n'"
        then have "Suc k < n" using Suc by simp
        with Cons.prems(3) have "match_pattern ((a # rest) ! Suc k) t [] = Inr None" by blast
        then show "match_pattern (rest ! k) t [] = Inr None" by simp
      qed
    qed
    with h Suc show ?thesis by simp
  qed
qed

lemma match_axioms_none:
  "\<forall>k < length axs. match_pattern (axs ! k) t [] = Inr None \<Longrightarrow> match_axioms axs i0 t = Inr None"
proof (induction axs arbitrary: i0)
  case Nil
  then show ?case by simp
next
  case (Cons a rest)
  from Cons.prems have h: "match_pattern a t [] = Inr None" by auto
  have "\<forall>k < length rest. match_pattern (rest ! k) t [] = Inr None"
  proof (intro allI impI)
    fix k assume "k < length rest"
    then have "Suc k < length (a # rest)" by simp
    with Cons.prems have "match_pattern ((a # rest) ! Suc k) t [] = Inr None" by blast
    then show "match_pattern (rest ! k) t [] = Inr None" by simp
  qed
  from Cons.IH[OF this] h show ?case by simp
qed

lemma mp_skipped_not_candidate: "mp_skipped h t \<Longrightarrow> \<not> mp_candidate h t"
  by (auto simp: mp_skipped_def mp_candidate_def split: sum.splits)

lemma mp_tried_in_vain_0: "mp_tried_in_vain f hyps t [s] 0"
  by (simp add: mp_tried_in_vain_def)

lemma mp_tried_in_vain_all_skipped:
  "\<forall>h \<in> set hyps. mp_skipped h t
     \<Longrightarrow> mp_tried_in_vain f hyps t (replicate (length hyps + 1) s) (length hyps)"
  by (simp add: mp_tried_in_vain_def mp_passed_def mp_skipped_not_candidate nth_Cons'
        del: replicate.simps)

lemma no_match_all:
  "\<forall>a \<in> set axs. match_pattern a t [] = Inr None
     \<Longrightarrow> \<forall>k < length axs. match_pattern (axs ! k) t [] = Inr None"
  by simp

section \<open>Properties of the parser\<close>

lemma rest_of_Nil: "rest_of p = [] \<Longrightarrow> len p \<le> pos p"
  by (simp add: rest_of_def len_def)

lemma rest_of_Cons:
  assumes "rest_of p = c # r"
  shows "pos p < len p" "formula_str p ! pos p = c" "rest_of (p\<lparr>pos := pos p + 1\<rparr>) = r"
proof -
  show lt: "pos p < len p" using assms by (cases "pos p < len p") (auto simp: rest_of_def len_def)
  from lt have "formula_str p ! pos p # drop (Suc (pos p)) (formula_str p) = drop (pos p) (formula_str p)"
    by (simp add: Cons_nth_drop_Suc len_def)
  with assms show "formula_str p ! pos p = c" "rest_of (p\<lparr>pos := pos p + 1\<rparr>) = r"
    by (simp_all add: rest_of_def)
qed

lemma rest_of_advance:
  "rest_of p = a @ b \<Longrightarrow> rest_of (p\<lparr>pos := pos p + length a\<rparr>) = b"
proof -
  assume a: "rest_of p = a @ b"
  have "rest_of (p\<lparr>pos := pos p + length a\<rparr>) = drop (length a) (rest_of p)"
    by (simp add: rest_of_def add.commute)
  with a show ?thesis by simp
qed

lemma skip_whitespace_rest:
  "rest_of p = ws @ r \<Longrightarrow> \<forall>c \<in> set ws. isspace c \<Longrightarrow> r = [] \<or> \<not> isspace (hd r) \<Longrightarrow>
     skip_whitespace p = p\<lparr>pos := pos p + length ws\<rparr>"
proof (induction ws arbitrary: p)
  case Nil
  show ?case
  proof (cases r)
    case Nil
    with Nil.prems rest_of_Nil[of p] show ?thesis by (subst skip_whitespace.simps) simp
  next
    case (Cons c r')
    with Nil.prems rest_of_Cons(1,2)[of p c r'] show ?thesis
      by (subst skip_whitespace.simps) simp
  qed
next
  case (Cons c ws)
  from Cons.prems(1) have r: "rest_of p = c # (ws @ r)" by simp
  note rc = rest_of_Cons[OF r]
  from Cons.IH[OF rc(3)] Cons.prems(2,3)
  have "skip_whitespace (p\<lparr>pos := pos p + 1\<rparr>) = p\<lparr>pos := pos p + 1 + length ws\<rparr>" by simp
  with rc(1,2) Cons.prems(2) show ?case by (subst skip_whitespace.simps) simp
qed

lemma read_token_loop_rest:
  "rest_of p = tok @ r \<Longrightarrow> pos p \<le> len p \<Longrightarrow> \<forall>c \<in> set tok. \<not> delimiter c \<Longrightarrow>
     r = [] \<or> delimiter (hd r) \<Longrightarrow>
     read_token_loop p acc = Inr (acc @ tok, p\<lparr>pos := pos p + length tok\<rparr>)"
proof (induction tok arbitrary: p acc)
  case Nil
  show ?case
  proof (cases r)
    case Nil
    with Nil.prems rest_of_Nil[of p] show ?thesis
      by (subst read_token_loop.simps) auto
  next
    case (Cons c r')
    with Nil.prems rest_of_Cons(1,2)[of p c r'] show ?thesis
      by (subst read_token_loop.simps) (auto simp: index_def len_def delimiter_def)
  qed
next
  case (Cons c tok)
  from Cons.prems(1) have r: "rest_of p = c # (tok @ r)" by simp
  note rc = rest_of_Cons[OF r]
  have le: "pos (p\<lparr>pos := pos p + 1\<rparr>) \<le> len (p\<lparr>pos := pos p + 1\<rparr>)"
    using rc(1) by (simp add: len_def)
  from Cons.IH[OF rc(3) le, of "acc @ [c]"] Cons.prems(3,4)
  have "read_token_loop (p\<lparr>pos := pos p + 1\<rparr>) (acc @ [c])
          = Inr (acc @ c # tok, p\<lparr>pos := pos p + 1 + length tok\<rparr>)" by simp
  with rc(1,2) Cons.prems(3) show ?case
    by (subst read_token_loop.simps) (auto simp: index_def len_def delimiter_def)
qed

lemma read_token_paren:
  assumes "rest_of p = ws @ c # r" "\<forall>c \<in> set ws. isspace c" "c = CHR ''('' \<or> c = CHR '')''"
  shows "read_token p = Inr ([c], p\<lparr>pos := pos p + length ws + 1\<rparr>)"
proof -
  have ns: "\<not> isspace c" using assms(3) by (auto simp: isspace_def)
  from skip_whitespace_rest[OF assms(1,2)] ns
  have sk: "skip_whitespace p = p\<lparr>pos := pos p + length ws\<rparr>" by simp
  from rest_of_advance[OF assms(1)] have "rest_of (p\<lparr>pos := pos p + length ws\<rparr>) = c # r" .
  note rc = rest_of_Cons[OF this]
  from sk rc(1,2) assms(3) show ?thesis
    by (auto simp: read_token_def Let_def)
qed

lemma read_token_atom:
  assumes "rest_of p = ws @ tok @ r" "\<forall>c \<in> set ws. isspace c"
    and "tok \<noteq> []" "\<not> isspace (hd tok)" "\<forall>c \<in> set tok. \<not> delimiter c"
    and "r = [] \<or> delimiter (hd r)"
  shows "read_token p = Inr (tok, p\<lparr>pos := pos p + length ws + length tok\<rparr>)"
proof -
  from assms(3) obtain c tok' where tok: "tok = c # tok'" by (cases tok) auto
  from skip_whitespace_rest[OF assms(1,2)] assms(3,4)
  have sk: "skip_whitespace p = p\<lparr>pos := pos p + length ws\<rparr>" by simp
  let ?q = "p\<lparr>pos := pos p + length ws\<rparr>"
  from rest_of_advance[OF assms(1)] have rq: "rest_of ?q = tok @ r" .
  with tok have "rest_of ?q = c # (tok' @ r)" by simp
  note rc = rest_of_Cons[OF this]
  from assms(5) tok have nd: "\<not> delimiter c" by simp
  have "pos ?q \<le> len ?q" using rc(1) by (simp add: len_def)
  from read_token_loop_rest[OF rq this assms(5,6), of "[]"]
  have "read_token_loop ?q [] = Inr (tok, ?q\<lparr>pos := pos ?q + length tok\<rparr>)" by simp
  with sk rc(1,2) nd show ?thesis
    by (auto simp: read_token_def Let_def delimiter_def)
qed

subsection \<open>Parsing a printed formula\<close>

lemma formula2str_VAR: "formula2str (Formula VAR cs v) = Inr v"
  by (subst formula2str.simps) simp

lemma formula2str_NOT:
  "formula2str (Formula NOT [a] v) = ebind (formula2str a) (\<lambda>s. Inr (''(not '' @ s @ '')''))"
  by (subst formula2str.simps) simp

lemma formula2str_binary:
  "t = AND \<or> t = OR \<or> t = IMPL \<Longrightarrow>
   formula2str (Formula t [a, b] v) =
     ebind (formula2str a) (\<lambda>s0. ebind (formula2str b) (\<lambda>s1.
     Inr (''('' @ type2str t @ '' '' @ s0 @ '' '' @ s1 @ '')'')))"
  by (subst formula2str.simps) auto

lemma space_isspace: "\<forall>c \<in> set '' ''. isspace c"
  by (simp add: isspace_def)

lemma not_paren_token:
  assumes "\<forall>c \<in> set v. \<not> delimiter c"
  shows "v \<noteq> ''(''"
proof
  assume "v = ''(''"
  then have "CHR ''('' \<in> set v" by simp
  with assms have "\<not> delimiter CHR ''(''" by blast
  then show False by (simp add: delimiter_def)
qed

lemma parse_formula_VAR:
  assumes "is_identifier v" "rest_of p = ws @ v @ r" "\<forall>c \<in> set ws. isspace c"
    "r = [] \<or> delimiter (hd r)"
  shows "parse_formula p = Inr (Formula VAR [] v, p\<lparr>pos := pos p + length ws + length v\<rparr>)"
proof -
  from assms(1) have v: "v \<noteq> []" "\<not> isspace (hd v)" "\<forall>c \<in> set v. \<not> delimiter c"
    by (simp_all add: is_identifier_def)
  note ne = not_paren_token[OF v(3)]
  note rt = read_token_atom[OF assms(2,3) v assms(4)]
  show ?thesis
    by (subst parse_formula.simps) (simp add: rt ne v(1))
qed

lemma parse_formula_NOT:
  assumes ih: "\<And>p ws r. rest_of p = ws @ sa @ r \<Longrightarrow> \<forall>c \<in> set ws. isspace c \<Longrightarrow>
            r = [] \<or> delimiter (hd r) \<Longrightarrow>
            parse_formula p = Inr (a', p\<lparr>pos := pos p + length ws + length sa\<rparr>)"
    and r: "rest_of p = ws @ (''(not '' @ sa @ '')'') @ r" and ws: "\<forall>c \<in> set ws. isspace c"
  shows "parse_formula p =
           Inr (Formula NOT [a'] ''not'', p\<lparr>pos := pos p + length ws + length (''(not '' @ sa @ '')'')\<rparr>)"
proof -
  let ?p1 = "p\<lparr>pos := pos p + length ws + 1\<rparr>"
  let ?p2 = "?p1\<lparr>pos := pos ?p1 + length ([]::string) + length ''not''\<rparr>"
  let ?p3 = "?p2\<lparr>pos := pos ?p2 + length '' '' + length sa\<rparr>"
  let ?p4 = "?p3\<lparr>pos := pos ?p3 + length ([]::string) + 1\<rparr>"
  from r have r0: "rest_of p = ws @ CHR ''('' # (''not '' @ sa @ '')'' @ r)" by simp
  have t1: "read_token p = Inr (''('', ?p1)" using read_token_paren[OF r0 ws] by simp
  from r have "rest_of p = (ws @ ''('') @ (''not'' @ '' '' @ sa @ '')'' @ r)" by simp
  from rest_of_advance[OF this] have r1: "rest_of ?p1 = [] @ ''not'' @ ('' '' @ sa @ '')'' @ r)"
    by (simp add: add.assoc)
  have t2: "read_token ?p1 = Inr (''not'', ?p2)"
    by (rule read_token_atom[OF r1]) (simp_all add: isspace_def delimiter_def)
  from r1 have "rest_of ?p1 = ''not'' @ ('' '' @ sa @ '')'' @ r)" by simp
  from rest_of_advance[OF this] have r2: "rest_of ?p2 = '' '' @ sa @ ('')'' @ r)" by simp
  have t3: "parse_formula ?p2 = Inr (a', ?p3)"
    by (rule ih[OF r2 space_isspace]) (simp add: delimiter_def)
  from r2 have "rest_of ?p2 = ('' '' @ sa) @ ('')'' @ r)" by simp
  from rest_of_advance[OF this] have r3: "rest_of ?p3 = [] @ CHR '')'' # r" by simp
  have t4: "read_token ?p3 = Inr ('')'', ?p4)"
    by (rule read_token_paren[OF r3]) simp_all
  have "parse_formula p = Inr (Formula NOT [a'] ''not'', ?p4)"
    by (subst parse_formula.simps)
       (simp add: t1[simplified] t2[simplified] t3[simplified] t4[simplified] str2type_def Let_def)
  then show ?thesis by simp
qed

lemma keyword_token:
  assumes "t = AND \<or> t = OR \<or> t = IMPL"
  shows "type2str t \<noteq> []" "\<not> isspace (hd (type2str t))"
    "\<forall>c \<in> set (type2str t). \<not> delimiter c" "str2type (type2str t) = t"
  using assms by (auto simp: isspace_def delimiter_def str2type_def)

lemma parse_formula_binary:
  assumes t: "t = AND \<or> t = OR \<or> t = IMPL"
    and iha: "\<And>p ws r. rest_of p = ws @ sa @ r \<Longrightarrow> \<forall>c \<in> set ws. isspace c \<Longrightarrow>
            r = [] \<or> delimiter (hd r) \<Longrightarrow>
            parse_formula p = Inr (a', p\<lparr>pos := pos p + length ws + length sa\<rparr>)"
    and ihb: "\<And>p ws r. rest_of p = ws @ sb @ r \<Longrightarrow> \<forall>c \<in> set ws. isspace c \<Longrightarrow>
            r = [] \<or> delimiter (hd r) \<Longrightarrow>
            parse_formula p = Inr (b', p\<lparr>pos := pos p + length ws + length sb\<rparr>)"
    and r: "rest_of p = ws @ (''('' @ type2str t @ '' '' @ sa @ '' '' @ sb @ '')'') @ r"
    and ws: "\<forall>c \<in> set ws. isspace c"
  shows "parse_formula p =
           Inr (Formula t [a', b'] (type2str t),
                p\<lparr>pos := pos p + length ws + length (''('' @ type2str t @ '' '' @ sa @ '' '' @ sb @ '')'')\<rparr>)"
proof -
  let ?k = "type2str t"
  let ?p1 = "p\<lparr>pos := pos p + length ws + 1\<rparr>"
  let ?p2 = "?p1\<lparr>pos := pos ?p1 + length ([]::string) + length ?k\<rparr>"
  let ?p3 = "?p2\<lparr>pos := pos ?p2 + length '' '' + length sa\<rparr>"
  let ?p4 = "?p3\<lparr>pos := pos ?p3 + length '' '' + length sb\<rparr>"
  let ?p5 = "?p4\<lparr>pos := pos ?p4 + length ([]::string) + 1\<rparr>"
  note k = keyword_token[OF t]
  from r have r0: "rest_of p = ws @ CHR ''('' # (?k @ '' '' @ sa @ '' '' @ sb @ '')'' @ r)" by simp
  have t1: "read_token p = Inr (''('', ?p1)" using read_token_paren[OF r0 ws] by simp
  from r have "rest_of p = (ws @ ''('') @ (?k @ '' '' @ sa @ '' '' @ sb @ '')'' @ r)" by simp
  from rest_of_advance[OF this]
  have r1: "rest_of ?p1 = [] @ ?k @ ('' '' @ sa @ '' '' @ sb @ '')'' @ r)"
    by (simp add: add.assoc)
  have t2: "read_token ?p1 = Inr (?k, ?p2)"
    by (rule read_token_atom[OF r1 _ k(1,2,3)]) (simp_all add: delimiter_def)
  from r1 have "rest_of ?p1 = ?k @ ('' '' @ sa @ '' '' @ sb @ '')'' @ r)" by simp
  from rest_of_advance[OF this] have r2: "rest_of ?p2 = '' '' @ sa @ ('' '' @ sb @ '')'' @ r)"
    by simp
  have t3: "parse_formula ?p2 = Inr (a', ?p3)"
    by (rule iha[OF r2 space_isspace]) (simp add: delimiter_def)
  from r2 have "rest_of ?p2 = ('' '' @ sa) @ ('' '' @ sb @ '')'' @ r)" by simp
  from rest_of_advance[OF this] have r3: "rest_of ?p3 = '' '' @ sb @ ('')'' @ r)" by simp
  have t4: "parse_formula ?p3 = Inr (b', ?p4)"
    by (rule ihb[OF r3 space_isspace]) (simp add: delimiter_def)
  from r3 have "rest_of ?p3 = ('' '' @ sb) @ ('')'' @ r)" by simp
  from rest_of_advance[OF this] have r4: "rest_of ?p4 = [] @ CHR '')'' # r" by simp
  have t5: "read_token ?p4 = Inr ('')'', ?p5)"
    by (rule read_token_paren[OF r4]) simp_all
  have nn: "t \<noteq> NOT" using t by auto
  have "parse_formula p = Inr (Formula t [a', b'] ?k, ?p5)"
    by (subst parse_formula.simps)
       (simp add: t1[simplified] t2[simplified] t3[simplified] t4[simplified] t5[simplified]
          k(4) nn t Let_def)
  then show ?thesis by (simp add: add.assoc)
qed

lemma parses_as_VAR: "is_identifier v \<Longrightarrow> parses_as v (Formula VAR [] v)"
  by (simp add: parses_as_def parse_formula_VAR)

lemma parses_as_NOT:
  "parses_as sa a' \<Longrightarrow> parses_as (''(not '' @ sa @ '')'') (Formula NOT [a'] ''not'')"
  unfolding parses_as_def
  by (intro allI impI, rule parse_formula_NOT) blast+

lemma parses_as_binary:
  "t = AND \<or> t = OR \<or> t = IMPL \<Longrightarrow> parses_as sa a' \<Longrightarrow> parses_as sb b' \<Longrightarrow>
     parses_as (''('' @ type2str t @ '' '' @ sa @ '' '' @ sb @ '')'') (Formula t [a', b'] (type2str t))"
  unfolding parses_as_def
  by (intro allI impI, rule parse_formula_binary) blast+

lemma parse_printed:
  "well_formed f \<Longrightarrow> identifier_names f \<Longrightarrow>
     \<exists>s. formula2str f = Inr s \<and> parses_as s (reparsed f)"
proof (induction f rule: well_formed_induct)
  case (Var v)
  then show ?case by (simp add: formula2str_VAR parses_as_VAR)
next
  case (Not a v)
  then obtain sa where "formula2str a = Inr sa" "parses_as sa (reparsed a)" by auto
  with parses_as_NOT[of sa "reparsed a"] show ?case by (simp add: formula2str_NOT)
next
  case (And a b v)
  then obtain sa sb where "formula2str a = Inr sa" "parses_as sa (reparsed a)"
    "formula2str b = Inr sb" "parses_as sb (reparsed b)" by auto
  with parses_as_binary[of AND sa "reparsed a" sb "reparsed b"] show ?case
    by (simp add: formula2str_binary)
next
  case (Or a b v)
  then obtain sa sb where "formula2str a = Inr sa" "parses_as sa (reparsed a)"
    "formula2str b = Inr sb" "parses_as sb (reparsed b)" by auto
  with parses_as_binary[of OR sa "reparsed a" sb "reparsed b"] show ?case
    by (simp add: formula2str_binary)
next
  case (Impl a b v)
  then obtain sa sb where "formula2str a = Inr sa" "parses_as sa (reparsed a)"
    "formula2str b = Inr sb" "parses_as sb (reparsed b)" by auto
  with parses_as_binary[of IMPL sa "reparsed a" sb "reparsed b"] show ?case
    by (simp add: formula2str_binary)
qed

lemma reparsed_equal: "well_formed f \<Longrightarrow> well_formed (reparsed f) \<and> eqv (reparsed f) f"
  by (induction f rule: well_formed_induct)
     (simp_all add: eqv_AND_iff eqv_OR_iff eqv_IMPL_iff)

subsection \<open>What the parser can return\<close>





lemma parse_outcome_shift:
  assumes "parse_outcome q (Inl e)" "pos p < pos q" "len q = len p"
  shows "parse_outcome p (Inl e)"
  using assms unfolding parse_outcome_def by auto



lemma parse_printed_text:
  assumes "well_formed f" "identifier_names f"
  shows "\<exists>s. formula2str f = Inr s \<and> parse s = Inr (reparsed f)"
proof -
  from parse_printed[OF assms] obtain s where s: "formula2str f = Inr s"
    "parses_as s (reparsed f)" by blast
  have "rest_of (Parser_init s) = [] @ s @ []" by (simp add: rest_of_def Parser_init_def)
  with s(2)[unfolded parses_as_def, rule_format, of "Parser_init s" "[]" "[]"]
  have "parse_formula (Parser_init s)
      = Inr (reparsed f, (Parser_init s)\<lparr>pos := pos (Parser_init s) + length ([]::string) + length s\<rparr>)"
    by simp
  then have "parse s = Inr (reparsed f)" by (simp add: parse_def returned_def)
  with s(1) show ?thesis by blast
qed

subsection \<open>The next token, and forms that are not closed\<close>










subsection \<open>Text behind the formula is not read\<close>








subsection \<open>Whole texts\<close>

lemma rest_of_init: "rest_of (Parser_init s) = [] @ s" "pos (Parser_init s) = 0"
  by (simp_all add: rest_of_def Parser_init_def)








section \<open>The claims\<close>

text \<open>
  Claim C10. On well-formed formulas \<open>is_equal\<close> is an equivalence relation: it is
  reflexive, symmetric and transitive, and in each case it returns \<open>True\<close> without
  raising. Transitivity needs the four child pairings of the commutative connectives.
\<close>

theorem C10_is_equal_equivalence:
  "(well_formed f \<longrightarrow> is_equal (Some f) (Some f) = Inr True)
   \<and> (well_formed a \<and> well_formed b \<and> is_equal (Some a) (Some b) = Inr True
        \<longrightarrow> is_equal (Some b) (Some a) = Inr True)
   \<and> (well_formed a \<and> well_formed b \<and> well_formed c
        \<and> is_equal (Some a) (Some b) = Inr True \<and> is_equal (Some b) (Some c) = Inr True
        \<longrightarrow> is_equal (Some a) (Some c) = Inr True)"
  using eqv_refl[of f] eqv_sym[of a b] eqv_trans[of a b c] by blast

theorem C10_is_equal_equivalence_witness:
  "well_formed (Formula AND [Formula VAR [] ''A'', Formula VAR [] ''B''] ''and'')
   \<and> well_formed (Formula AND [Formula VAR [] ''B'', Formula VAR [] ''A''] [])
   \<and> well_formed (Formula AND [Formula VAR [] ''A'', Formula VAR [] ''B''] ''x'')
   \<and> is_equal (Some (Formula AND [Formula VAR [] ''A'', Formula VAR [] ''B''] ''and''))
               (Some (Formula AND [Formula VAR [] ''B'', Formula VAR [] ''A''] [])) = Inr True
   \<and> is_equal (Some (Formula AND [Formula VAR [] ''B'', Formula VAR [] ''A''] []))
               (Some (Formula AND [Formula VAR [] ''A'', Formula VAR [] ''B''] ''x'')) = Inr True
   \<and> is_equal (Some (Formula AND [Formula VAR [] ''B'', Formula VAR [] ''A''] []))
               (Some (Formula AND [Formula VAR [] ''A'', Formula VAR [] ''B''] ''and'')) = Inr True
   \<and> is_equal (Some (Formula AND [Formula VAR [] ''A'', Formula VAR [] ''B''] ''and''))
               (Some (Formula AND [Formula VAR [] ''A'', Formula VAR [] ''B''] ''x'')) = Inr True
   \<and> is_equal (Some (Formula AND [Formula VAR [] ''A'', Formula VAR [] ''B''] ''and''))
               (Some (Formula AND [Formula VAR [] ''A'', Formula VAR [] ''B''] ''and'')) = Inr True"
proof -
  let ?a = "Formula AND [Formula VAR [] ''A'', Formula VAR [] ''B''] ''and''"
  let ?b = "Formula AND [Formula VAR [] ''B'', Formula VAR [] ''A''] []"
  let ?c = "Formula AND [Formula VAR [] ''A'', Formula VAR [] ''B''] ''x''"
  have wa: "well_formed ?a" and wb: "well_formed ?b" and wc: "well_formed ?c" by simp_all
  have ab: "is_equal (Some ?a) (Some ?b) = Inr True" by (simp add: is_equal_AND)
  have bc: "is_equal (Some ?b) (Some ?c) = Inr True" by (simp add: is_equal_AND)
  from C10_is_equal_equivalence[of ?a ?a ?b ?c] wa wb wc ab bc show ?thesis by blast
qed

text \<open>
  Claim C5. For well-formed \<open>a\<close> and \<open>b\<close>, and whatever the value fields of the nodes,
  an And or Or node equals the node with its operands swapped; the Implies node with its
  operands swapped is equal exactly when \<open>a\<close> equals \<open>b\<close>, and compares \<open>False\<close> (it does
  not raise) otherwise.
\<close>

theorem C5_commutative_equality:
  "well_formed a \<and> well_formed b \<longrightarrow>
     is_equal (Some (Formula AND [a, b] v)) (Some (Formula AND [b, a] w)) = Inr True
   \<and> is_equal (Some (Formula OR [a, b] v)) (Some (Formula OR [b, a] w)) = Inr True
   \<and> (is_equal (Some a) (Some b) \<noteq> Inr True \<longrightarrow>
        is_equal (Some (Formula IMPL [a, b] v)) (Some (Formula IMPL [b, a] w)) = Inr False)
   \<and> (is_equal (Some a) (Some b) = Inr True \<longrightarrow>
        is_equal (Some (Formula IMPL [a, b] v)) (Some (Formula IMPL [b, a] w)) = Inr True)"
proof (intro impI, elim conjE)
  assume wa: "well_formed a" and wb: "well_formed b"
  from is_equal_total[OF wa wb] obtain r where r: "is_equal (Some a) (Some b) = Inr r" by blast
  from is_equal_total[OF wb wa] obtain r' where r': "is_equal (Some b) (Some a) = Inr r'" by blast
  have rr: "r \<Longrightarrow> r'" using eqv_sym[OF wa wb] r r' by simp
  have "is_equal (Some (Formula AND [a, b] v)) (Some (Formula AND [b, a] w)) = Inr True"
    using wa wb eqv_refl by (simp add: eqv_AND_iff)
  moreover have "is_equal (Some (Formula OR [a, b] v)) (Some (Formula OR [b, a] w)) = Inr True"
    using wa wb eqv_refl by (simp add: eqv_OR_iff)
  moreover have "is_equal (Some (Formula IMPL [a, b] v)) (Some (Formula IMPL [b, a] w)) = Inr r"
    using r r' rr by (cases r) (auto simp: is_equal_IMPL both_def)
  ultimately show "is_equal (Some (Formula AND [a, b] v)) (Some (Formula AND [b, a] w)) = Inr True
   \<and> is_equal (Some (Formula OR [a, b] v)) (Some (Formula OR [b, a] w)) = Inr True
   \<and> (is_equal (Some a) (Some b) \<noteq> Inr True \<longrightarrow>
        is_equal (Some (Formula IMPL [a, b] v)) (Some (Formula IMPL [b, a] w)) = Inr False)
   \<and> (is_equal (Some a) (Some b) = Inr True \<longrightarrow>
        is_equal (Some (Formula IMPL [a, b] v)) (Some (Formula IMPL [b, a] w)) = Inr True)"
    using r by auto
qed

theorem C5_commutative_equality_witness:
  "well_formed (Var ''A'') \<and> well_formed (Not_formula (Var ''B''))
   \<and> is_equal (Some (Formula AND [Var ''A'', Not_formula (Var ''B'')] ''and''))
               (Some (Formula AND [Not_formula (Var ''B''), Var ''A''] ''and'')) = Inr True
   \<and> is_equal (Some (Formula OR [Var ''A'', Not_formula (Var ''B'')] ''or''))
               (Some (Formula OR [Not_formula (Var ''B''), Var ''A''] ''or'')) = Inr True
   \<and> is_equal (Some (Var ''A'')) (Some (Not_formula (Var ''B''))) \<noteq> Inr True
   \<and> is_equal (Some (Formula IMPL [Var ''A'', Not_formula (Var ''B'')] []))
               (Some (Formula IMPL [Not_formula (Var ''B''), Var ''A''] [])) = Inr False"
proof -
  have w: "well_formed (Var ''A'')" "well_formed (Not_formula (Var ''B''))"
    by (simp_all add: Var_def Not_formula_def)
  have ne: "is_equal (Some (Var ''A'')) (Some (Not_formula (Var ''B''))) \<noteq> Inr True"
    by (simp add: Var_def Not_formula_def is_equal_type_diff)
  from C5_commutative_equality[of "Var ''A''" "Not_formula (Var ''B'')" "''and''" "''and''"]
       C5_commutative_equality[of "Var ''A''" "Not_formula (Var ''B'')" "''or''" "''or''"]
       C5_commutative_equality[of "Var ''A''" "Not_formula (Var ''B'')" "[]" "[]"]
       w ne
  show ?thesis by blast
qed

text \<open>
  Claim C4. Whatever the built-in hash functions for strings, integers and tuples are,
  two well-formed formulas that \<open>is_equal\<close> accepts have the same hash, and computing
  it does not raise. This covers And and Or nodes with swapped operands at any depth,
  because their hash is taken from the sorted pair of child hashes.
\<close>

theorem C4_hash_consistent:
  "well_formed a \<and> well_formed b \<and> is_equal (Some a) (Some b) = Inr True
     \<longrightarrow> (\<exists>h. Formula_hash H a = Inr h \<and> Formula_hash H b = Inr h)"
  using eqv_hash[of a b H] Formula_hash_total[of a H] by auto

theorem C4_hash_consistent_witness:
  "well_formed (Formula OR [Formula AND [Var ''A'', Var ''B''] ''and'', Not_formula (Var ''C'')] ''or'')
   \<and> well_formed (Formula OR [Not_formula (Var ''C''), Formula AND [Var ''B'', Var ''A''] ''and''] ''or'')
   \<and> is_equal (Some (Formula OR [Formula AND [Var ''A'', Var ''B''] ''and'', Not_formula (Var ''C'')] ''or''))
               (Some (Formula OR [Not_formula (Var ''C''), Formula AND [Var ''B'', Var ''A''] ''and''] ''or''))
        = Inr True
   \<and> (\<exists>h. Formula_hash \<lparr>hash_str = (\<lambda>s. int (length s)), hash_int = (\<lambda>i. i), hash_tuple = sum_list\<rparr>
              (Formula OR [Formula AND [Var ''A'', Var ''B''] ''and'', Not_formula (Var ''C'')] ''or'') = Inr h
         \<and> Formula_hash \<lparr>hash_str = (\<lambda>s. int (length s)), hash_int = (\<lambda>i. i), hash_tuple = sum_list\<rparr>
              (Formula OR [Not_formula (Var ''C''), Formula AND [Var ''B'', Var ''A''] ''and''] ''or'') = Inr h)"
proof -
  let ?a = "Formula OR [Formula AND [Var ''A'', Var ''B''] ''and'', Not_formula (Var ''C'')] ''or''"
  let ?b = "Formula OR [Not_formula (Var ''C''), Formula AND [Var ''B'', Var ''A''] ''and''] ''or''"
  let ?H = "\<lparr>hash_str = (\<lambda>s. int (length s)), hash_int = (\<lambda>i. i), hash_tuple = sum_list\<rparr>"
  have w: "well_formed ?a" "well_formed ?b" by (simp_all add: Var_def Not_formula_def)
  have e: "is_equal (Some ?a) (Some ?b) = Inr True"
    by (simp add: Var_def Not_formula_def is_equal_OR is_equal_AND is_equal_type_diff both_def)
  from C4_hash_consistent[of ?a ?b ?H] w e show ?thesis by blast
qed

text \<open>
  Claim C7. \<open>normalize_formula\<close> maps \<open>None\<close> to \<open>None\<close>; it returns a formula whose
  tag is Variable, Not or Implies as it is, without looking at its children; it rewrites
  \<open>And(a, b)\<close> to \<open>Not(Implies(a', Not(b')))\<close> and \<open>Or(a, b)\<close> to
  \<open>Implies(Not(a'), b')\<close>, where \<open>a'\<close> and \<open>b'\<close> are the normalized operands, the new
  nodes carrying their keyword as value; and on a well-formed formula it does not raise.
\<close>

theorem C7_normalize:
  "normalize_formula None = Inr None
   \<and> (ftype f = VAR \<or> ftype f = NOT \<or> ftype f = IMPL \<longrightarrow> normalize_formula (Some f) = Inr (Some f))
   \<and> (normalize_formula (Some a) = Inr (Some a') \<and> normalize_formula (Some b) = Inr (Some b') \<longrightarrow>
        normalize_formula (Some (Formula AND [a, b] v)) =
          Inr (Some (Formula NOT [Formula IMPL [a', Formula NOT [b'] ''not''] ''implies''] ''not''))
      \<and> normalize_formula (Some (Formula OR [a, b] v)) =
          Inr (Some (Formula IMPL [Formula NOT [a'] ''not'', b'] ''implies'')))
   \<and> (well_formed g \<longrightarrow> (\<exists>g'. normalize_formula (Some g) = Inr (Some g')))"
proof -
  have 1: "normalize_formula None = Inr None" by (simp add: normalize_formula_def)
  have 2: "ftype f = VAR \<or> ftype f = NOT \<or> ftype f = IMPL \<longrightarrow>
             normalize_formula (Some f) = Inr (Some f)"
    by (auto simp: normalize_formula_def normalize_node_other)
  have 3: "normalize_formula (Some a) = Inr (Some a') \<and> normalize_formula (Some b) = Inr (Some b') \<longrightarrow>
        normalize_formula (Some (Formula AND [a, b] v)) =
          Inr (Some (Formula NOT [Formula IMPL [a', Formula NOT [b'] ''not''] ''implies''] ''not''))
      \<and> normalize_formula (Some (Formula OR [a, b] v)) =
          Inr (Some (Formula IMPL [Formula NOT [a'] ''not'', b'] ''implies''))"
    by (auto simp: normalize_formula_def normalize_node_AND normalize_node_OR ebind_eq_Inr)
  have 4: "well_formed g \<longrightarrow> (\<exists>g'. normalize_formula (Some g) = Inr (Some g'))"
    using normalize_node_total[of g] by (auto simp: normalize_formula_def)
  from 1 2 3 4 show ?thesis by blast
qed

theorem C7_normalize_witness:
  "ftype (Not_formula (Formula AND [Var ''A'', Var ''B''] ''and'')) = NOT
   \<and> normalize_formula (Some (Not_formula (Formula AND [Var ''A'', Var ''B''] ''and'')))
       = Inr (Some (Not_formula (Formula AND [Var ''A'', Var ''B''] ''and'')))
   \<and> normalize_formula (Some (Formula OR [Var ''C'', Var ''D''] ''or''))
       = Inr (Some (Formula IMPL [Formula NOT [Var ''C''] ''not'', Var ''D''] ''implies''))
   \<and> normalize_formula (Some (Var ''E'')) = Inr (Some (Var ''E''))
   \<and> normalize_formula (Some (Formula AND [Formula OR [Var ''C'', Var ''D''] ''or'', Var ''E''] ''and''))
       = Inr (Some (Formula NOT [Formula IMPL
                [Formula IMPL [Formula NOT [Var ''C''] ''not'', Var ''D''] ''implies'',
                 Formula NOT [Var ''E''] ''not''] ''implies''] ''not''))
   \<and> well_formed (Formula OR [Var ''C'', Var ''D''] ''or'')
   \<and> (\<exists>g'. normalize_formula (Some (Formula OR [Var ''C'', Var ''D''] ''or'')) = Inr (Some g'))"
proof -
  let ?n = "Not_formula (Formula AND [Var ''A'', Var ''B''] ''and'')"
  let ?o = "Formula OR [Var ''C'', Var ''D''] ''or''"
  let ?o' = "Formula IMPL [Formula NOT [Var ''C''] ''not'', Var ''D''] ''implies''"
  have t: "ftype ?n = NOT" by (simp add: Not_formula_def)
  have c: "ftype (Var ''C'') = VAR" "ftype (Var ''D'') = VAR" "ftype (Var ''E'') = VAR"
    by (simp_all add: Var_def)
  have w: "well_formed ?o" by (simp add: Var_def)
  have n: "normalize_formula (Some ?n) = Inr (Some ?n)"
    using C7_normalize[of ?n ?n ?n ?n ?n "[]" ?n, THEN conjunct2, THEN conjunct1] t by simp
  have vc: "normalize_formula (Some (Var ''C'')) = Inr (Some (Var ''C''))"
    using C7_normalize[of "Var ''C''" ?n ?n ?n ?n "[]" ?n, THEN conjunct2, THEN conjunct1] c(1)
    by simp
  have vd: "normalize_formula (Some (Var ''D'')) = Inr (Some (Var ''D''))"
    using C7_normalize[of "Var ''D''" ?n ?n ?n ?n "[]" ?n, THEN conjunct2, THEN conjunct1] c(2)
    by simp
  have ve: "normalize_formula (Some (Var ''E'')) = Inr (Some (Var ''E''))"
    using C7_normalize[of "Var ''E''" ?n ?n ?n ?n "[]" ?n, THEN conjunct2, THEN conjunct1] c(3)
    by simp
  have o: "normalize_formula (Some ?o) = Inr (Some ?o')"
    using C7_normalize[of ?n "Var ''C''" "Var ''C''" "Var ''D''" "Var ''D''" "''or''" ?n,
        THEN conjunct2, THEN conjunct2, THEN conjunct1] vc vd
    by simp
  have a: "normalize_formula (Some (Formula AND [?o, Var ''E''] ''and''))
       = Inr (Some (Formula NOT [Formula IMPL [?o', Formula NOT [Var ''E''] ''not''] ''implies''] ''not''))"
    using C7_normalize[of ?n ?o ?o' "Var ''E''" "Var ''E''" "''and''" ?n,
        THEN conjunct2, THEN conjunct2, THEN conjunct1] o ve
    by simp
  have e: "\<exists>g'. normalize_formula (Some ?o) = Inr (Some g')"
    using C7_normalize[of ?n ?n ?n ?n ?n "[]" ?o, THEN conjunct2, THEN conjunct2, THEN conjunct2] w
    by simp
  show ?thesis
    apply (intro conjI)
    apply (rule t)
    apply (rule n)
    apply (rule o)
    apply (rule ve)
    apply (rule a)
    apply (rule w)
    apply (rule e)
    done
qed

text \<open>
  Claim C6. If matching a pattern against a well-formed target, starting from the empty
  substitution, succeeds with substitution \<open>s\<close>, then applying \<open>s\<close> to the pattern gives
  a formula that \<open>is_equal\<close> accepts as equal to the target.
\<close>

theorem C6_substitution_completeness:
  "well_formed target \<and> match_pattern pattern target [] = Inr (Some s)
     \<longrightarrow> is_equal (Some (apply_substitution pattern s)) (Some target) = Inr True"
proof (intro impI, elim conjE)
  assume w: "well_formed target" and m: "match_pattern pattern target [] = Inr (Some s)"
  have "wf_subst []" by (simp add: wf_subst_def)
  from match_sound[OF m w this] extends_refl[of s]
  show "is_equal (Some (apply_substitution pattern s)) (Some target) = Inr True" by blast
qed

theorem C6_substitution_completeness_witness:
  "well_formed (Impl (Formula AND [Var ''A'', Var ''B''] ''and'') (Impl (Not_formula (Var ''B'')) (Formula AND [Var ''B'', Var ''A''] ''and'')))
   \<and> match_pattern (Impl (Var ''P'') (Impl (Var ''Q'') (Var ''P'')))
        (Impl (Formula AND [Var ''A'', Var ''B''] ''and'') (Impl (Not_formula (Var ''B'')) (Formula AND [Var ''B'', Var ''A''] ''and''))) []
       = Inr (Some [(''P'', Formula AND [Var ''A'', Var ''B''] ''and''), (''Q'', Not_formula (Var ''B''))])
   \<and> is_equal (Some (apply_substitution (Impl (Var ''P'') (Impl (Var ''Q'') (Var ''P'')))
                  [(''P'', Formula AND [Var ''A'', Var ''B''] ''and''), (''Q'', Not_formula (Var ''B''))]))
        (Some (Impl (Formula AND [Var ''A'', Var ''B''] ''and'') (Impl (Not_formula (Var ''B'')) (Formula AND [Var ''B'', Var ''A''] ''and''))))
       = Inr True"
proof -
  let ?t = "Impl (Formula AND [Var ''A'', Var ''B''] ''and'') (Impl (Not_formula (Var ''B'')) (Formula AND [Var ''B'', Var ''A''] ''and''))"
  let ?p = "Impl (Var ''P'') (Impl (Var ''Q'') (Var ''P''))"
  let ?s = "[(''P'', Formula AND [Var ''A'', Var ''B''] ''and''), (''Q'', Not_formula (Var ''B''))]"
  have w: "well_formed ?t" by (simp add: Var_def Impl_def Not_formula_def)
  have m: "match_pattern ?p ?t [] = Inr (Some ?s)" by code_simp
  from C6_substitution_completeness[of ?t ?p ?s] w m show ?thesis by blast
qed

text \<open>
  Claim C1 (as amended). On a fresh Prover, \<open>prove\<close> applied to the formula parsed from
  \<open>(implies A A)\<close>, with no hypotheses, depth 0 and maximal depth 1000, returns the proof
  \<open>Deduction(A, A, [Hypothesis(0, A)])\<close>: the deduction rule is tried before the axiom
  schemas and succeeds, so the schema \<open>A \<rightarrow> A\<close> is never consulted. This holds for every
  choice of the built-in hash functions.
\<close>

theorem C1_prove_implies_A_A:
  "prove_parsed H ''(implies A A)'' =
     Inr (Some [Deduction (Var ''A'') (Var ''A'') [Hypothesis 0 (Var ''A'')]])"
proof -
  have "proof_cache fresh_prover = []" by (simp add: fresh_prover_def)
  from prove_self_implication[OF this, of "Formula VAR [] ''A''" 1000 H "''implies''"]
  obtain self' where "prove H fresh_prover
      (Formula IMPL [Formula VAR [] ''A'', Formula VAR [] ''A''] ''implies'') [] 0 1000
      = Inr (Some [Deduction (Var ''A'') (Var ''A'') [Hypothesis 0 (Var ''A'')]], self')"
    by (auto simp: Var_def)
  then show ?thesis
    by (simp add: prove_parsed_def Prover_init_value parse_implies_A_A returned_def)
qed

text \<open>
  The claim as stated fails: the proof returned is the deduction node, not the axiom
  node \<open>Axiom(4, {A \<mapsto> Variable A}, target)\<close>.
\<close>

theorem C1_counterexample:
  "prove_parsed example_hash ''(implies A A)'' =
     Inr (Some [Deduction (Formula VAR [] ''A'') (Formula VAR [] ''A'')
                 [Hypothesis 0 (Formula VAR [] ''A'')]])
   \<and> prove_parsed example_hash ''(implies A A)'' \<noteq>
     Inr (Some [Axiom 4 [(''A'', Var ''A'')]
       (Formula IMPL [Formula VAR [] ''A'', Formula VAR [] ''A''] ''implies'')])"
proof -
  have "proof_cache fresh_prover = []" by (simp add: fresh_prover_def)
  from prove_self_implication[OF this, of "Formula VAR [] ''A''" 1000 example_hash "''implies''"]
  obtain self' where "prove example_hash fresh_prover
      (Formula IMPL [Formula VAR [] ''A'', Formula VAR [] ''A''] ''implies'') [] 0 1000
      = Inr (Some [Deduction (Formula VAR [] ''A'') (Formula VAR [] ''A'')
                    [Hypothesis 0 (Formula VAR [] ''A'')]], self')"
    by auto
  then have "prove_parsed example_hash ''(implies A A)'' =
      Inr (Some [Deduction (Formula VAR [] ''A'') (Formula VAR [] ''A'')
                  [Hypothesis 0 (Formula VAR [] ''A'')]])"
    by (simp add: prove_parsed_def Prover_init_value parse_implies_A_A returned_def)
  then show ?thesis by simp
qed

text \<open>
  Claim C2. A call of \<open>prove\<close> that is not answered from the cache and whose depth has
  not passed the bound tries its rules in a fixed order, and the first success is cached
  and returned. First the hypotheses in list order: the first one equal to the target
  gives \<open>Hypothesis i\<close>, whatever comes after it in the list. Otherwise, for a target
  \<open>Implies(left, right)\<close>, the deduction rule, whose success yields
  \<open>Deduction(left, right, subproof)\<close> whether or not an axiom schema matches the target
  (with a well-formed cache, target and hypotheses the call then returns that proof).
  Otherwise modus ponens over the hypotheses in list order: when each of the first \<open>j\<close>
  hypotheses is passed over or tried in vain and hypothesis \<open>j\<close> is an implication with
  consequent equal to the target whose antecedent is proved, the result is
  \<open>ModusPonens j\<close> with that proof, whatever comes after it in the list. Otherwise,
  when all hypotheses are passed over or tried in vain, the axiom schemas in list order:
  the first schema that matches the target, at position \<open>n\<close> counted from 0, gives
  \<open>Axiom (n + 1)\<close> with its substitution. And otherwise no proof, with nothing cached.
\<close>

theorem C2_rule_order:
  assumes "cache_get H self (target, hyps, depth) = Inr None" and "depth \<le> max_depth"
  shows
    "(i < length hyps \<and> is_equal (Some (hyps ! i)) (Some target) = Inr True
        \<and> (\<forall>k < i. is_equal (Some (hyps ! k)) (Some target) = Inr False) \<longrightarrow>
        prove H self target hyps depth max_depth =
          ebind (cache_set H self (target, hyps, depth) [Hypothesis i target])
            (\<lambda>self'. Inr (Some [Hypothesis i target], self')))
     \<and> ((\<forall>h \<in> set hyps. is_equal (Some h) (Some target) = Inr False)
          \<and> target = Formula IMPL [left, right] v
          \<and> prove H self right (hyps @ [left]) (depth + 1) max_depth = Inr (Some sub, self1) \<longrightarrow>
        prove H self target hyps depth max_depth =
          ebind (cache_set H self1 (target, hyps, depth) [Deduction left right sub])
            (\<lambda>self'. Inr (Some [Deduction left right sub], self'))
        \<and> (wf_prover self \<and> well_formed target \<and> (\<forall>h \<in> set hyps. well_formed h) \<longrightarrow>
             (\<exists>self'. prove H self target hyps depth max_depth =
                        Inr (Some [Deduction left right sub], self'))))
     \<and> ((\<forall>h \<in> set hyps. is_equal (Some h) (Some target) = Inr False)
          \<and> ((ftype target \<noteq> IMPL \<and> self2 = self) \<or>
               (\<exists>l r w. target = Formula IMPL [l, r] w \<and>
                  prove H self r (hyps @ [l]) (depth + 1) max_depth = Inr (None, self2)))
          \<and> mp_tried_in_vain (\<lambda>l s. prove H s l hyps (depth + 1) max_depth) hyps target ss j
          \<and> ss ! 0 = self2
          \<and> j < length hyps \<and> mp_candidate (hyps ! j) target
          \<and> index (children (hyps ! j)) 0 = Inr antecedent
          \<and> prove H (ss ! j) antecedent hyps (depth + 1) max_depth = Inr (Some proof_left, self3) \<longrightarrow>
        prove H self target hyps depth max_depth =
          ebind (cache_set H self3 (target, hyps, depth) [ModusPonens j proof_left target])
            (\<lambda>self'. Inr (Some [ModusPonens j proof_left target], self')))
     \<and> ((\<forall>h \<in> set hyps. is_equal (Some h) (Some target) = Inr False)
          \<and> ((ftype target \<noteq> IMPL \<and> self2 = self) \<or>
               (\<exists>l r w. target = Formula IMPL [l, r] w \<and>
                  prove H self r (hyps @ [l]) (depth + 1) max_depth = Inr (None, self2)))
          \<and> mp_tried_in_vain (\<lambda>l s. prove H s l hyps (depth + 1) max_depth) hyps target ss
               (length hyps)
          \<and> ss ! 0 = self2 \<and> ss ! length hyps = self4
          \<and> n < length (axioms self4)
          \<and> match_pattern (axioms self4 ! n) target [] = Inr (Some substitution)
          \<and> (\<forall>k < n. match_pattern (axioms self4 ! k) target [] = Inr None) \<longrightarrow>
        prove H self target hyps depth max_depth =
          ebind (cache_set H self4 (target, hyps, depth) [Axiom (n + 1) substitution target])
            (\<lambda>self'. Inr (Some [Axiom (n + 1) substitution target], self')))
     \<and> ((\<forall>h \<in> set hyps. is_equal (Some h) (Some target) = Inr False)
          \<and> ((ftype target \<noteq> IMPL \<and> self2 = self) \<or>
               (\<exists>l r w. target = Formula IMPL [l, r] w \<and>
                  prove H self r (hyps @ [l]) (depth + 1) max_depth = Inr (None, self2)))
          \<and> mp_tried_in_vain (\<lambda>l s. prove H s l hyps (depth + 1) max_depth) hyps target ss
               (length hyps)
          \<and> ss ! 0 = self2 \<and> ss ! length hyps = self4
          \<and> (\<forall>k < length (axioms self4). match_pattern (axioms self4 ! k) target [] = Inr None) \<longrightarrow>
        prove H self target hyps depth max_depth = Inr (None, self4))"
proof (intro conjI impI)
  assume a: "i < length hyps \<and> is_equal (Some (hyps ! i)) (Some target) = Inr True
        \<and> (\<forall>k < i. is_equal (Some (hyps ! k)) (Some target) = Inr False)"
  then have "find_hypothesis hyps 0 target = Inr (Some i)"
    using find_hypothesis_first[of i hyps target 0] by simp
  from prove_hypothesis_step[OF assms this]
  show "prove H self target hyps depth max_depth =
          ebind (cache_set H self (target, hyps, depth) [Hypothesis i target])
            (\<lambda>self'. Inr (Some [Hypothesis i target], self'))" .
next
  assume a: "(\<forall>h \<in> set hyps. is_equal (Some h) (Some target) = Inr False)
          \<and> target = Formula IMPL [left, right] v
          \<and> prove H self right (hyps @ [left]) (depth + 1) max_depth = Inr (Some sub, self1)"
  from a assms prove_deduction_step[of H self left right v hyps depth max_depth sub self1]
  show "prove H self target hyps depth max_depth =
          ebind (cache_set H self1 (target, hyps, depth) [Deduction left right sub])
            (\<lambda>self'. Inr (Some [Deduction left right sub], self'))" by blast
next
  assume a: "(\<forall>h \<in> set hyps. is_equal (Some h) (Some target) = Inr False)
          \<and> target = Formula IMPL [left, right] v
          \<and> prove H self right (hyps @ [left]) (depth + 1) max_depth = Inr (Some sub, self1)"
    and w: "wf_prover self \<and> well_formed target \<and> (\<forall>h \<in> set hyps. well_formed h)"
  from a w have wr: "well_formed right" and wl: "\<forall>h \<in> set (hyps @ [left]). well_formed h"
    by auto
  from w prove_total[OF _ wr wl, of self H "depth + 1" max_depth] a
  have w1: "wf_prover self1" by auto
  have "wf_key (target, hyps, depth)" using w by (simp add: wf_key_def)
  from cache_set_total[OF w1 this, of H "[Deduction left right sub]"] obtain self' where
    "cache_set H self1 (target, hyps, depth) [Deduction left right sub] = Inr self'" by blast
  moreover from a assms prove_deduction_step[of H self left right v hyps depth max_depth sub self1]
  have "prove H self target hyps depth max_depth =
          ebind (cache_set H self1 (target, hyps, depth) [Deduction left right sub])
            (\<lambda>self'. Inr (Some [Deduction left right sub], self'))" by blast
  ultimately show "\<exists>self'. prove H self target hyps depth max_depth =
                        Inr (Some [Deduction left right sub], self')" by simp
next
  let ?f = "\<lambda>l s. prove H s l hyps (depth + 1) max_depth"
  assume a: "(\<forall>h \<in> set hyps. is_equal (Some h) (Some target) = Inr False)
          \<and> ((ftype target \<noteq> IMPL \<and> self2 = self) \<or>
               (\<exists>l r w. target = Formula IMPL [l, r] w \<and>
                  prove H self r (hyps @ [l]) (depth + 1) max_depth = Inr (None, self2)))
          \<and> mp_tried_in_vain ?f hyps target ss j
          \<and> ss ! 0 = self2
          \<and> j < length hyps \<and> mp_candidate (hyps ! j) target
          \<and> index (children (hyps ! j)) 0 = Inr antecedent
          \<and> prove H (ss ! j) antecedent hyps (depth + 1) max_depth = Inr (Some proof_left, self3)"
  then have fh: "find_hypothesis hyps 0 target = Inr None"
    using find_hypothesis_none[of hyps target 0] by blast
  from a have "mp_loop ?f hyps 0 target (ss ! 0) = Inr (Some (j, proof_left), self3)"
    using mp_loop_first[of ?f hyps target ss j antecedent proof_left self3] by blast
  with a have loop: "mp_loop ?f hyps 0 target self2 = Inr (Some (j, proof_left), self3)" by simp
  from a have ded: "(ftype target \<noteq> IMPL \<and> self2 = self) \<or>
               (\<exists>l r w. target = Formula IMPL [l, r] w \<and>
                  prove H self r (hyps @ [l]) (depth + 1) max_depth = Inr (None, self2))" by blast
  show "prove H self target hyps depth max_depth =
          ebind (cache_set H self3 (target, hyps, depth) [ModusPonens j proof_left target])
            (\<lambda>self'. Inr (Some [ModusPonens j proof_left target], self'))"
    by (rule prove_mp_step[OF assms fh ded loop])
next
  let ?f = "\<lambda>l s. prove H s l hyps (depth + 1) max_depth"
  assume a: "(\<forall>h \<in> set hyps. is_equal (Some h) (Some target) = Inr False)
          \<and> ((ftype target \<noteq> IMPL \<and> self2 = self) \<or>
               (\<exists>l r w. target = Formula IMPL [l, r] w \<and>
                  prove H self r (hyps @ [l]) (depth + 1) max_depth = Inr (None, self2)))
          \<and> mp_tried_in_vain ?f hyps target ss (length hyps)
          \<and> ss ! 0 = self2 \<and> ss ! length hyps = self4
          \<and> n < length (axioms self4)
          \<and> match_pattern (axioms self4 ! n) target [] = Inr (Some substitution)
          \<and> (\<forall>k < n. match_pattern (axioms self4 ! k) target [] = Inr None)"
  then have fh: "find_hypothesis hyps 0 target = Inr None"
    using find_hypothesis_none[of hyps target 0] by blast
  from a have "mp_loop ?f hyps 0 target (ss ! 0) = Inr (None, ss ! length hyps)"
    using mp_loop_none[of ?f hyps target ss] by blast
  with a have loop: "mp_loop ?f hyps 0 target self2 = Inr (None, self4)" by simp
  from a have ded: "(ftype target \<noteq> IMPL \<and> self2 = self) \<or>
               (\<exists>l r w. target = Formula IMPL [l, r] w \<and>
                  prove H self r (hyps @ [l]) (depth + 1) max_depth = Inr (None, self2))" by blast
  from a have "match_axioms (axioms self4) 0 target = Inr (Some (n + 1, substitution))"
    using match_axioms_first[of n "axioms self4" target substitution 0] by simp
  with prove_axiom_step[OF assms fh ded loop]
  show "prove H self target hyps depth max_depth =
          ebind (cache_set H self4 (target, hyps, depth) [Axiom (n + 1) substitution target])
            (\<lambda>self'. Inr (Some [Axiom (n + 1) substitution target], self'))"
    by simp
next
  let ?f = "\<lambda>l s. prove H s l hyps (depth + 1) max_depth"
  assume a: "(\<forall>h \<in> set hyps. is_equal (Some h) (Some target) = Inr False)
          \<and> ((ftype target \<noteq> IMPL \<and> self2 = self) \<or>
               (\<exists>l r w. target = Formula IMPL [l, r] w \<and>
                  prove H self r (hyps @ [l]) (depth + 1) max_depth = Inr (None, self2)))
          \<and> mp_tried_in_vain ?f hyps target ss (length hyps)
          \<and> ss ! 0 = self2 \<and> ss ! length hyps = self4
          \<and> (\<forall>k < length (axioms self4). match_pattern (axioms self4 ! k) target [] = Inr None)"
  then have fh: "find_hypothesis hyps 0 target = Inr None"
    using find_hypothesis_none[of hyps target 0] by blast
  from a have "mp_loop ?f hyps 0 target (ss ! 0) = Inr (None, ss ! length hyps)"
    using mp_loop_none[of ?f hyps target ss] by blast
  with a have loop: "mp_loop ?f hyps 0 target self2 = Inr (None, self4)" by simp
  from a have ded: "(ftype target \<noteq> IMPL \<and> self2 = self) \<or>
               (\<exists>l r w. target = Formula IMPL [l, r] w \<and>
                  prove H self r (hyps @ [l]) (depth + 1) max_depth = Inr (None, self2))" by blast
  from a have "match_axioms (axioms self4) 0 target = Inr None"
    using match_axioms_none[of "axioms self4" target 0] by blast
  with prove_axiom_step[OF assms fh ded loop]
  show "prove H self target hyps depth max_depth = Inr (None, self4)" by simp
qed

theorem C2_rule_order_witness:
  "cache_get example_hash fresh_prover
      (Formula VAR [] ''Q'',
       [Formula IMPL [Formula VAR [] ''P'', Formula VAR [] ''Q''] [],
        Formula IMPL [Formula VAR [] ''R'', Formula VAR [] ''Q''] [],
        Formula VAR [] ''P'', Formula VAR [] ''R''], 0) = Inr None
   \<and> mp_candidate (Formula IMPL [Formula VAR [] ''P'', Formula VAR [] ''Q''] []) (Formula VAR [] ''Q'')
   \<and> mp_candidate (Formula IMPL [Formula VAR [] ''R'', Formula VAR [] ''Q''] []) (Formula VAR [] ''Q'')
   \<and> (\<exists>s. prove example_hash fresh_prover (Formula VAR [] ''P'')
          [Formula IMPL [Formula VAR [] ''P'', Formula VAR [] ''Q''] [],
           Formula IMPL [Formula VAR [] ''R'', Formula VAR [] ''Q''] [],
           Formula VAR [] ''P'', Formula VAR [] ''R''] 1 10
          = Inr (Some [Hypothesis 2 (Formula VAR [] ''P'')], s))
   \<and> (\<exists>s. prove example_hash fresh_prover (Formula VAR [] ''R'')
          [Formula IMPL [Formula VAR [] ''P'', Formula VAR [] ''Q''] [],
           Formula IMPL [Formula VAR [] ''R'', Formula VAR [] ''Q''] [],
           Formula VAR [] ''P'', Formula VAR [] ''R''] 1 10
          = Inr (Some [Hypothesis 3 (Formula VAR [] ''R'')], s))
   \<and> (\<exists>s. prove example_hash fresh_prover (Formula VAR [] ''Q'')
          [Formula IMPL [Formula VAR [] ''P'', Formula VAR [] ''Q''] [],
           Formula IMPL [Formula VAR [] ''R'', Formula VAR [] ''Q''] [],
           Formula VAR [] ''P'', Formula VAR [] ''R''] 0 10
          = Inr (Some [ModusPonens 0 [Hypothesis 2 (Formula VAR [] ''P'')] (Formula VAR [] ''Q'')], s))
   \<and> prove example_hash fresh_prover (Formula VAR [] ''S'')
          [Formula IMPL [Formula VAR [] ''S'', Formula VAR [] ''Q''] [],
           Formula IMPL [Formula VAR [] ''P'', Formula VAR [] ''Q''] [],
           Formula VAR [] ''P''] 1 10
       = Inr (None, fresh_prover)
   \<and> (\<exists>s. prove example_hash fresh_prover (Formula VAR [] ''Q'')
          [Formula IMPL [Formula VAR [] ''S'', Formula VAR [] ''Q''] [],
           Formula IMPL [Formula VAR [] ''P'', Formula VAR [] ''Q''] [],
           Formula VAR [] ''P''] 0 10
          = Inr (Some [ModusPonens 1 [Hypothesis 2 (Formula VAR [] ''P'')] (Formula VAR [] ''Q'')], s))
   \<and> (\<exists>s. prove example_hash fresh_prover (Formula VAR [] ''A'')
          [Formula VAR [] ''A'', Formula VAR [] ''A''] 1 1000
          = Inr (Some [Hypothesis 0 (Formula VAR [] ''A'')], s))
   \<and> match_pattern (axioms fresh_prover ! 3)
        (Formula IMPL [Formula VAR [] ''A'', Formula VAR [] ''A''] ''implies'') []
       = Inr (Some [(''A'', Formula VAR [] ''A'')])
   \<and> (\<exists>s. prove example_hash fresh_prover
          (Formula IMPL [Formula VAR [] ''A'', Formula VAR [] ''A''] ''implies'') [] 0 1000
          = Inr (Some [Deduction (Formula VAR [] ''A'') (Formula VAR [] ''A'')
                        [Hypothesis 0 (Formula VAR [] ''A'')]], s))
   \<and> (\<exists>s. prove example_hash fresh_prover
          (Formula IMPL [Formula VAR [] ''A'', Formula VAR [] ''A''] ''implies'') [] 0 0
          = Inr (Some [Axiom 4 [(''A'', Formula VAR [] ''A'')]
                        (Formula IMPL [Formula VAR [] ''A'', Formula VAR [] ''A''] ''implies'')], s))
   \<and> match_pattern (Formula IMPL [Formula VAR [] ''A'', Formula VAR [] ''B''] [])
        (Formula IMPL [Formula VAR [] ''P'', Formula VAR [] ''P''] []) []
       = Inr (Some [(''A'', Formula VAR [] ''P''), (''B'', Formula VAR [] ''P'')])
   \<and> (\<exists>s. prove example_hash
          (fresh_prover\<lparr>axioms :=
             [Formula IMPL [Formula VAR [] ''A'', Formula VAR [] ''A''] [],
              Formula IMPL [Formula VAR [] ''A'', Formula VAR [] ''B''] []]\<rparr>)
          (Formula IMPL [Formula VAR [] ''P'', Formula VAR [] ''P''] []) [] 0 0
          = Inr (Some [Axiom 1 [(''A'', Formula VAR [] ''P'')]
                        (Formula IMPL [Formula VAR [] ''P'', Formula VAR [] ''P''] [])], s))"
proof -
  let ?H = example_hash
  let ?F = fresh_prover
  let ?A = "Formula VAR [] ''A''"
  let ?P = "Formula VAR [] ''P''"
  let ?Q = "Formula VAR [] ''Q''"
  let ?R = "Formula VAR [] ''R''"
  let ?S = "Formula VAR [] ''S''"
  let ?T = "Formula IMPL [?A, ?A] ''implies''"
  let ?PP = "Formula IMPL [?P, ?P] []"
  let ?PQ = "Formula IMPL [?P, ?Q] []"
  let ?RQ = "Formula IMPL [?R, ?Q] []"
  let ?SQ = "Formula IMPL [?S, ?Q] []"
  let ?h1 = "[?PQ, ?RQ, ?P, ?R]"
  let ?h2 = "[?SQ, ?PQ, ?P]"
  let ?G = "?F\<lparr>axioms := [Formula IMPL [?A, ?A] [], Formula IMPL [?A, Formula VAR [] ''B''] []]\<rparr>"
  have e: "proof_cache ?F = []" by (simp add: fresh_prover_def)
  have eG: "proof_cache ?G = []" by (simp add: fresh_prover_def)
  have wp: "wf_prover ?F" by (simp add: wf_prover_def e)
  have wG: "wf_prover ?G" by (simp add: wf_prover_def eG)
  have miss: "cache_get ?H ?F (t, hs, d) = Inr None"
    if "well_formed t" "\<forall>h \<in> set hs. well_formed h" for t hs d
    using cache_get_empty[OF e, of "(t, hs, d)" ?H] that by (simp add: wf_key_def)
  have store: "\<exists>s. cache_set ?H s0 (t, hs, d) p = Inr s \<and> wf_prover s"
    if "wf_prover s0" "well_formed t" "\<forall>h \<in> set hs. well_formed h" for s0 t hs d p
    using cache_set_total[OF that(1), of "(t, hs, d)" ?H p] that(2,3) by (simp add: wf_key_def)

  \<comment> \<open>two hypotheses equal to the target: the first is taken\<close>
  have mAA: "cache_get ?H ?F (?A, [?A, ?A], 1) = Inr None" by (rule miss) simp_all
  from store[OF wp, of ?A "[?A, ?A]" 1 "[Hypothesis 0 ?A]"] obtain sA where
    sA: "cache_set ?H ?F (?A, [?A, ?A], 1) [Hypothesis 0 ?A] = Inr sA" by auto
  have hypAA: "\<exists>s. prove ?H ?F ?A [?A, ?A] 1 1000 = Inr (Some [Hypothesis 0 ?A], s)"
    using C2_rule_order[OF mAA, of 1000 0, THEN conjunct1] sA by simp

  \<comment> \<open>two usable implications: the first is taken\<close>
  have m1Q: "cache_get ?H ?F (?Q, ?h1, 0) = Inr None" by (rule miss) simp_all
  have m1P: "cache_get ?H ?F (?P, ?h1, 0 + 1) = Inr None" by (rule miss) simp_all
  have m1R: "cache_get ?H ?F (?R, ?h1, 0 + 1) = Inr None" by (rule miss) simp_all
  have c1: "mp_candidate ?PQ ?Q" and c2: "mp_candidate ?RQ ?Q" by (simp_all add: mp_candidate_def)
  from store[OF wp, of ?P ?h1 "0 + 1" "[Hypothesis 2 ?P]"] obtain s1 where
    s1: "cache_set ?H ?F (?P, ?h1, 0 + 1) [Hypothesis 2 ?P] = Inr s1" "wf_prover s1" by auto
  from store[OF wp, of ?R ?h1 "0 + 1" "[Hypothesis 3 ?R]"] obtain s1' where
    s1': "cache_set ?H ?F (?R, ?h1, 0 + 1) [Hypothesis 3 ?R] = Inr s1'" by auto
  have b2: "\<forall>k < 2. is_equal (Some (?h1 ! k)) (Some ?P) = Inr False"
    by (auto simp: is_equal_type_diff dest!: less_2_cases)
  have b3: "\<forall>k < 3. is_equal (Some (?h1 ! k)) (Some ?R) = Inr False"
    by (auto simp: is_equal_type_diff less_Suc_eq numeral_3_eq_3)
  have p1P: "prove ?H ?F ?P ?h1 (0 + 1) 10 = Inr (Some [Hypothesis 2 ?P], s1)"
    using C2_rule_order[OF m1P, of 10 2, THEN conjunct1] b2 s1 by simp
  have p1R: "prove ?H ?F ?R ?h1 (0 + 1) 10 = Inr (Some [Hypothesis 3 ?R], s1')"
    using C2_rule_order[OF m1R, of 10 3, THEN conjunct1] b3 s1' by simp
  have n1: "\<forall>h \<in> set ?h1. is_equal (Some h) (Some ?Q) = Inr False"
    by (simp add: is_equal_type_diff)
  from store[OF s1(2), of ?Q ?h1 0 "[ModusPonens 0 [Hypothesis 2 ?P] ?Q]"] obtain s2 where
    s2: "cache_set ?H s1 (?Q, ?h1, 0) [ModusPonens 0 [Hypothesis 2 ?P] ?Q] = Inr s2" by auto
  have mp1: "\<exists>s. prove ?H ?F ?Q ?h1 0 10 = Inr (Some [ModusPonens 0 [Hypothesis 2 ?P] ?Q], s)"
    using C2_rule_order[OF m1Q, of 10, where ?self2.0 = ?F and ss = "[?F]" and j = 0
        and antecedent = ?P and proof_left = "[Hypothesis 2 ?P]" and ?self3.0 = s1,
        THEN conjunct2, THEN conjunct2, THEN conjunct1]
      n1 c1 p1P s2 mp_tried_in_vain_0[of "\<lambda>l s. prove ?H s l ?h1 (0 + 1) 10" ?h1 ?Q ?F]
    by simp

  \<comment> \<open>the first implication is tried in vain, the second is taken\<close>
  have m2Q: "cache_get ?H ?F (?Q, ?h2, 0) = Inr None" by (rule miss) simp_all
  have m2P: "cache_get ?H ?F (?P, ?h2, 0 + 1) = Inr None" by (rule miss) simp_all
  have m2S: "cache_get ?H ?F (?S, ?h2, 0 + 1) = Inr None" by (rule miss) simp_all
  have nS: "\<forall>h \<in> set ?h2. is_equal (Some h) (Some ?S) = Inr False"
    by (simp add: is_equal_type_diff)
  have skS: "\<forall>h \<in> set ?h2. mp_skipped h ?S" by (simp add: mp_skipped_def)
  have axS: "\<forall>a \<in> set (axioms ?F). match_pattern a ?S [] = Inr None" by code_simp
  have p2S: "prove ?H ?F ?S ?h2 (0 + 1) 10 = Inr (None, ?F)"
    using C2_rule_order[OF m2S, of 10, where ?self2.0 = ?F and ?self4.0 = ?F
        and ss = "replicate (length ?h2 + 1) ?F",
        THEN conjunct2, THEN conjunct2, THEN conjunct2, THEN conjunct2]
      nS no_match_all[OF axS]
      mp_tried_in_vain_all_skipped[OF skS, of "\<lambda>l s. prove ?H s l ?h2 (0 + 1 + 1) 10" ?F]
    by simp
  from store[OF wp, of ?P ?h2 "0 + 1" "[Hypothesis 2 ?P]"] obtain s3 where
    s3: "cache_set ?H ?F (?P, ?h2, 0 + 1) [Hypothesis 2 ?P] = Inr s3" "wf_prover s3" by auto
  have b2': "\<forall>k < 2. is_equal (Some (?h2 ! k)) (Some ?P) = Inr False"
    by (auto simp: is_equal_type_diff dest!: less_2_cases)
  have p2P: "prove ?H ?F ?P ?h2 (0 + 1) 10 = Inr (Some [Hypothesis 2 ?P], s3)"
    using C2_rule_order[OF m2P, of 10 2, THEN conjunct1] b2' s3 by simp
  have n2: "\<forall>h \<in> set ?h2. is_equal (Some h) (Some ?Q) = Inr False"
    by (simp add: is_equal_type_diff)
  have c3: "mp_candidate ?SQ ?Q" by (simp add: mp_candidate_def)
  have vain: "mp_tried_in_vain (\<lambda>l s. prove ?H s l ?h2 (0 + 1) 10) ?h2 ?Q [?F, ?F] 1"
    using p2S c3 by (simp add: mp_tried_in_vain_def mp_passed_def)
  from store[OF s3(2), of ?Q ?h2 0 "[ModusPonens 1 [Hypothesis 2 ?P] ?Q]"] obtain s4 where
    s4: "cache_set ?H s3 (?Q, ?h2, 0) [ModusPonens 1 [Hypothesis 2 ?P] ?Q] = Inr s4" by auto
  have mp2: "\<exists>s. prove ?H ?F ?Q ?h2 0 10 = Inr (Some [ModusPonens 1 [Hypothesis 2 ?P] ?Q], s)"
    using C2_rule_order[OF m2Q, of 10, where ?self2.0 = ?F and ss = "[?F, ?F]" and j = 1
        and antecedent = ?P and proof_left = "[Hypothesis 2 ?P]" and ?self3.0 = s3,
        THEN conjunct2, THEN conjunct2, THEN conjunct1]
      n2 c1 p2P s4 vain
    by simp

  \<comment> \<open>deduction, although the fourth axiom schema matches\<close>
  have mT: "cache_get ?H ?F (?T, [], 0) = Inr None" by (rule miss) simp_all
  have mA: "cache_get ?H ?F (?A, [?A], 0 + 1) = Inr None" by (rule miss) simp_all
  have ax4: "match_pattern (axioms ?F ! 3) ?T [] = Inr (Some [(''A'', ?A)])" by code_simp
  from store[OF wp, of ?A "[?A]" "0 + 1" "[Hypothesis 0 ?A]"] obtain s5 where
    s5: "cache_set ?H ?F (?A, [?A], 0 + 1) [Hypothesis 0 ?A] = Inr s5" by auto
  have rec: "prove ?H ?F ?A ([] @ [?A]) (0 + 1) 1000 = Inr (Some [Hypothesis 0 ?A], s5)"
    using C2_rule_order[OF mA, of 1000 0, THEN conjunct1] s5 by simp
  have b0: "\<forall>h \<in> set []. is_equal (Some h) (Some ?T) = Inr False"
    and w0: "well_formed ?T" "\<forall>h \<in> set []. well_formed h" by simp_all
  have d0: "(0::int) \<le> 1000" by simp
  have ded: "\<exists>s. prove ?H ?F ?T [] 0 1000 = Inr (Some [Deduction ?A ?A [Hypothesis 0 ?A]], s)"
    using C2_rule_order[OF mT d0, where left = ?A and right = ?A and v = "''implies''"
        and sub = "[Hypothesis 0 ?A]" and ?self1.0 = s5, THEN conjunct2, THEN conjunct1] rec wp
      b0 w0
    by blast

  \<comment> \<open>axiom schema, once the deduction has run into the depth bound\<close>
  have gate: "prove ?H ?F ?A ([] @ [?A]) (0 + 1) 0 = Inr (None, ?F)"
    using prove_depth_gate[of 0 "0 + 1" ?H ?F ?A "[?A]"] mA by simp
  have dis: "(ftype ?T \<noteq> IMPL \<and> ?F = ?F) \<or>
       (\<exists>l r w. ?T = Formula IMPL [l, r] w \<and>
          prove ?H ?F r ([] @ [l]) (0 + 1) 0 = Inr (None, ?F))"
    using gate by blast
  have ax03: "\<forall>k < 3. match_pattern (axioms ?F ! k) ?T [] = Inr None"
  proof (intro allI impI)
    fix k :: nat assume "k < 3"
    then have "k = 0 \<or> k = 1 \<or> k = 2" by arith
    moreover have "match_pattern (axioms ?F ! 0) ?T [] = Inr None"
      "match_pattern (axioms ?F ! 1) ?T [] = Inr None"
      "match_pattern (axioms ?F ! 2) ?T [] = Inr None" by code_simp+
    ultimately show "match_pattern (axioms ?F ! k) ?T [] = Inr None" by blast
  qed
  have len: "3 < length (axioms ?F)" by (simp add: fresh_prover_def)
  from store[OF wp, of ?T "[]" 0 "[Axiom 4 [(''A'', ?A)] ?T]"] obtain s6 where
    s6: "cache_set ?H ?F (?T, [], 0) [Axiom 4 [(''A'', ?A)] ?T] = Inr s6" by auto
  have axm: "\<exists>s. prove ?H ?F ?T [] 0 0 = Inr (Some [Axiom 4 [(''A'', ?A)] ?T], s)"
    using C2_rule_order[OF mT, of 0, where ?self2.0 = ?F and ?self4.0 = ?F and ss = "[?F]"
        and n = 3 and substitution = "[(''A'', ?A)]",
        THEN conjunct2, THEN conjunct2, THEN conjunct2, THEN conjunct1]
      dis ax4 ax03 len s6 mp_tried_in_vain_0[of "\<lambda>l s. prove ?H s l [] (0 + 1) 0" "[]" ?T ?F]
    by simp

  \<comment> \<open>two schemas that match the target: the first is taken\<close>
  have mG: "cache_get ?H ?G (?PP, [], 0) = Inr None"
    using cache_get_empty[OF eG, of "(?PP, [], 0)" ?H] by (simp add: wf_key_def)
  have mGP: "cache_get ?H ?G (?P, [?P], 0 + 1) = Inr None"
    using cache_get_empty[OF eG, of "(?P, [?P], 0 + 1)" ?H] by (simp add: wf_key_def)
  have gateG: "prove ?H ?G ?P ([] @ [?P]) (0 + 1) 0 = Inr (None, ?G)"
    using prove_depth_gate[of 0 "0 + 1" ?H ?G ?P "[?P]"] mGP by simp
  have disG: "(ftype ?PP \<noteq> IMPL \<and> ?G = ?G) \<or>
       (\<exists>l r w. ?PP = Formula IMPL [l, r] w \<and>
          prove ?H ?G r ([] @ [l]) (0 + 1) 0 = Inr (None, ?G))"
    using gateG by blast
  have g0: "match_pattern (axioms ?G ! 0) ?PP [] = Inr (Some [(''A'', ?P)])" by code_simp
  have g1: "match_pattern (Formula IMPL [?A, Formula VAR [] ''B''] []) ?PP []
      = Inr (Some [(''A'', ?P), (''B'', ?P)])" by code_simp
  have lenG: "0 < length (axioms ?G)" by simp
  from store[OF wG, of ?PP "[]" 0 "[Axiom 1 [(''A'', ?P)] ?PP]"] obtain s7 where
    s7: "cache_set ?H ?G (?PP, [], 0) [Axiom 1 [(''A'', ?P)] ?PP] = Inr s7" by auto
  have axG: "\<exists>s. prove ?H ?G ?PP [] 0 0 = Inr (Some [Axiom 1 [(''A'', ?P)] ?PP], s)"
    using C2_rule_order[OF mG, of 0, where ?self2.0 = ?G and ?self4.0 = ?G and ss = "[?G]"
        and n = 0 and substitution = "[(''A'', ?P)]",
        THEN conjunct2, THEN conjunct2, THEN conjunct2, THEN conjunct1]
      disG g0 lenG s7 mp_tried_in_vain_0[of "\<lambda>l s. prove ?H s l [] (0 + 1) 0" "[]" ?PP ?G]
    by simp
  from m1Q c1 c2 p1P p1R mp1 p2S mp2 hypAA ax4 ded axm g1 axG show ?thesis by simp
qed

text \<open>
  Claim C9. The recursion of \<open>prove\<close> terminates on every input: the relation
  \<open>prove_rel\<close> between a call and the recursive calls it makes has no infinite
  descending chain (every call is in its accessible part, \<open>prove_dom\<close>). Every recursive
  call is made at \<open>depth + 1\<close> with the same bound, and only by a call whose depth has
  not passed the bound, so \<open>max_depth + 1 - depth\<close> decreases along every chain of
  calls; a call with \<open>depth > max_depth\<close> that is not answered from the cache makes no
  recursive call, returns "no proof found" at once and leaves the cache as it was.
  Nothing is said here about how a call that recurses ends: by a returned value or by
  an exception.
\<close>

theorem C9_prove_terminates:
  "prove_dom (H, self, target, hyps, depth, max_depth)
   \<and> (prove_rel (H', self', target', hyps', depth', max_depth')
                 (H, self, target, hyps, depth, max_depth)
        \<longrightarrow> depth' = depth + 1 \<and> max_depth' = max_depth \<and> depth \<le> max_depth
            \<and> nat (max_depth' + 1 - depth') < nat (max_depth + 1 - depth))
   \<and> (max_depth < depth \<and> cache_get H self (target, hyps, depth) = Inr None
        \<longrightarrow> prove H self target hyps depth max_depth = Inr (None, self))"
proof -
  have "nat (max_depth + 1 - (depth + 1)) < nat (max_depth + 1 - depth)"
    if "depth \<le> max_depth" using that by simp
  then show ?thesis
    using prove_all_dom[of H self target hyps depth max_depth]
      prove_rel_depth[of H' self' target' hyps' depth' max_depth' H self target hyps depth max_depth]
      prove_depth_gate[of max_depth depth H self target hyps]
    by blast
qed

theorem C9_prove_terminates_witness:
  "prove_rel
     (example_hash, fresh_prover, Formula VAR [] ''Q'',
      [Formula IMPL [Formula VAR [] ''Q'', Formula VAR [] ''Q''] []], 1, 3)
     (example_hash, fresh_prover, Formula VAR [] ''Q'',
      [Formula IMPL [Formula VAR [] ''Q'', Formula VAR [] ''Q''] []], 0, 3)
   \<and> (0::int) \<le> 3
   \<and> nat (3 + 1 - 1) < nat (3 + 1 - 0)
   \<and> cache_get example_hash fresh_prover
        (Formula VAR [] ''Q'', [Formula IMPL [Formula VAR [] ''Q'', Formula VAR [] ''Q''] []], 4)
       = Inr None
   \<and> prove example_hash fresh_prover (Formula VAR [] ''Q'')
        [Formula IMPL [Formula VAR [] ''Q'', Formula VAR [] ''Q''] []] 4 3
       = Inr (None, fresh_prover)
   \<and> prove_dom (example_hash, fresh_prover, Formula VAR [] ''Q'',
        [Formula IMPL [Formula VAR [] ''Q'', Formula VAR [] ''Q''] []], 0, 3)"
proof -
  let ?H = example_hash
  let ?Q = "Formula VAR [] ''Q''"
  let ?hs = "[Formula IMPL [?Q, ?Q] []]"
  have e: "proof_cache fresh_prover = []" by (simp add: fresh_prover_def)
  have k0: "wf_key (?Q, ?hs, 0)" and k4: "wf_key (?Q, ?hs, 4)" by (simp_all add: wf_key_def)
  note m0 = cache_get_empty[OF e k0, of ?H] and m4 = cache_get_empty[OF e k4, of ?H]
  have fh: "find_hypothesis ?hs 0 ?Q = Inr None" by (simp add: is_equal_type_diff)
  have rel: "prove_rel (?H, fresh_prover, ?Q, ?hs, 0 + 1, 3) (?H, fresh_prover, ?Q, ?hs, 0, 3)"
    by (rule prove_rel.intros(2)[OF refl m0 refl _ fh refl _ refl refl]) simp_all
  then have rel': "prove_rel (?H, fresh_prover, ?Q, ?hs, 1, 3) (?H, fresh_prover, ?Q, ?hs, 0, 3)"
    by simp
  note T = C9_prove_terminates[of ?H fresh_prover ?Q ?hs _ 3 ?H fresh_prover ?Q ?hs 1 3]
  have le: "(0::int) \<le> 3" "nat (3 + 1 - 1) < nat (3 + 1 - 0)"
    using T[of 0, THEN conjunct2, THEN conjunct1] rel' by blast+
  have gate: "prove ?H fresh_prover ?Q ?hs 4 3 = Inr (None, fresh_prover)"
    using T[of 4, THEN conjunct2, THEN conjunct2] m4 by simp
  have dom: "prove_dom (?H, fresh_prover, ?Q, ?hs, 0, 3)"
    using T[of 0, THEN conjunct1] .
  from rel' le m4 gate dom show ?thesis by blast
qed




text \<open>
  Claim C8. For every well-formed formula whose variable names are identifiers (not
  empty, not starting with a whitespace character, free of spaces and parentheses),
  printing does not raise, and parsing the printed text returns a formula that
  \<open>is_equal\<close> accepts as equal to the original. The parsed formula differs from the
  original at most in the value fields of its operator nodes, which \<open>is_equal\<close> ignores.
\<close>

theorem C8_parser_round_trip:
  "well_formed f \<and> identifier_names f \<longrightarrow>
     (\<exists>s f'. formula2str f = Inr s \<and> parse s = Inr f' \<and> is_equal (Some f') (Some f) = Inr True)"
proof
  assume a: "well_formed f \<and> identifier_names f"
  then obtain s where "formula2str f = Inr s" "parse s = Inr (reparsed f)"
    using parse_printed_text by blast
  moreover from a have "is_equal (Some (reparsed f)) (Some f) = Inr True"
    using reparsed_equal by blast
  ultimately show "\<exists>s f'. formula2str f = Inr s \<and> parse s = Inr f' \<and> is_equal (Some f') (Some f) = Inr True"
    by blast
qed

theorem C8_parser_round_trip_witness:
  "well_formed (Impl (Formula OR [Var ''A'', Not_formula (Var ''not'')] []) (Var ''x1''))
   \<and> identifier_names (Impl (Formula OR [Var ''A'', Not_formula (Var ''not'')] []) (Var ''x1''))
   \<and> formula2str (Impl (Formula OR [Var ''A'', Not_formula (Var ''not'')] []) (Var ''x1''))
       = Inr ''(implies (or A (not not)) x1)''
   \<and> (\<exists>s f'. formula2str (Impl (Formula OR [Var ''A'', Not_formula (Var ''not'')] []) (Var ''x1'')) = Inr s
         \<and> parse s = Inr f'
         \<and> is_equal (Some f') (Some (Impl (Formula OR [Var ''A'', Not_formula (Var ''not'')] []) (Var ''x1'')))
             = Inr True)"
proof -
  let ?f = "Impl (Formula OR [Var ''A'', Not_formula (Var ''not'')] []) (Var ''x1'')"
  have w: "well_formed ?f" by (simp add: Impl_def Var_def Not_formula_def)
  have i: "identifier_names ?f"
    by (simp add: Impl_def Var_def Not_formula_def is_identifier_def isspace_def delimiter_def)
  have s: "formula2str ?f = Inr ''(implies (or A (not not)) x1)''" by code_simp
  from C8_parser_round_trip[of ?f] w i s show ?thesis by blast
qed

end
